theory Spec2Isabelle
  imports Main
begin

section \<open>Layered topological sorting of a dependency graph (package topo)\<close>

subsection \<open>Data model\<close>

text \<open>
  The only error value of the package: \<^verbatim>\<open>var ErrCyclicDependency = errors.New(...)\<close>.
\<close>

datatype error = ErrCyclicDependency

text \<open>
  \<^verbatim>\<open>type node[T comparable] struct { value T; deps []T }\<close>.
  The field \<^verbatim>\<open>value\<close> is written \<open>val\<close>, since \<^verbatim>\<open>value\<close> is a reserved word.
\<close>

record 'a node =
  val :: 'a
  deps :: "'a list"

text \<open>\<^verbatim>\<open>type Graph[T comparable] struct { nodes []node[T] }\<close>\<close>

record 'a Graph =
  nodes :: "'a node list"

text \<open>The zero value \<^verbatim>\<open>var g topo.Graph[T]\<close>: the nil slice of nodes.\<close>

definition empty_graph :: "'a Graph" where
  "empty_graph = \<lparr>nodes = []\<rparr>"

text \<open>
  \<^verbatim>\<open>func (g *Graph[T]) AddNode(value T, deps []T)\<close> appends one node; the receiver is
  passed in and the updated graph is returned.
\<close>

definition AddNode :: "'a Graph \<Rightarrow> 'a \<Rightarrow> 'a list \<Rightarrow> 'a Graph" where
  "AddNode g v ds = g\<lparr>nodes := nodes g @ [\<lparr>val = v, deps = ds\<rparr>]\<rparr>"

subsection \<open>The three maps built by the first pass of SortByLayers\<close>

text \<open>
  \<^verbatim>\<open>dependsOn\<close> and \<^verbatim>\<open>dependedOnBy\<close> are \<^verbatim>\<open>map[T][]T\<close>; \<^verbatim>\<open>allValues\<close> is a
  \<^verbatim>\<open>map[T]bool\<close> in which only \<^verbatim>\<open>true\<close> is ever stored, that is, a set of keys.
\<close>

record 'a tables =
  dependsOn :: "'a \<rightharpoonup> 'a list"
  dependedOnBy :: "'a \<rightharpoonup> 'a list"
  allValues :: "'a set"

definition empty_tables :: "'a tables" where
  "empty_tables = \<lparr>dependsOn = Map.empty, dependedOnBy = Map.empty, allValues = {}\<rparr>"

text \<open>Reading a \<^verbatim>\<open>map[T][]T\<close> at a missing key yields the nil slice.\<close>

definition lookup :: "('a \<rightharpoonup> 'a list) \<Rightarrow> 'a \<Rightarrow> 'a list" where
  "lookup m k = (case m k of None \<Rightarrow> [] | Some xs \<Rightarrow> xs)"

text \<open>
  The body of the inner loop \<^verbatim>\<open>for _, dep := range node.deps\<close>:
  \<^verbatim>\<open>allValues[dep] = true; dependedOnBy[dep] = append(dependedOnBy[dep], node.value)\<close>.
\<close>

definition add_dep :: "'a \<Rightarrow> 'a \<Rightarrow> 'a tables \<Rightarrow> 'a tables" where
  "add_dep v dep t =
     t\<lparr>allValues := insert dep (allValues t),
       dependedOnBy := (dependedOnBy t)(dep \<mapsto> lookup (dependedOnBy t) dep @ [v])\<rparr>"

text \<open>
  The body of the outer loop \<^verbatim>\<open>for _, node := range g.nodes\<close>:
  \<^verbatim>\<open>allValues[node.value] = true; dependsOn[node.value] = node.deps\<close>, then the inner loop.
  The assignment to \<^verbatim>\<open>dependsOn\<close> overwrites an entry stored for the same value before.
\<close>

definition add_node :: "'a node \<Rightarrow> 'a tables \<Rightarrow> 'a tables" where
  "add_node n t =
     fold (add_dep (val n)) (deps n)
       (t\<lparr>allValues := insert (val n) (allValues t),
          dependsOn := (dependsOn t)(val n \<mapsto> deps n)\<rparr>)"

definition build_tables :: "'a node list \<Rightarrow> 'a tables" where
  "build_tables ns = fold add_node ns empty_tables"

definition build :: "'a Graph \<Rightarrow> 'a tables" where
  "build g = build_tables (nodes g)"

subsection \<open>Iterating over a map\<close>

text \<open>
  \<^verbatim>\<open>for value := range allValues\<close> visits every key once, in an order the language leaves
  open. The order is a parameter of the model: a list \<open>ks\<close> with \<open>iteration_order S ks\<close>.
\<close>

definition iteration_order :: "'a set \<Rightarrow> 'a list \<Rightarrow> bool" where
  "iteration_order S ks \<longleftrightarrow> distinct ks \<and> set ks = S"

subsection \<open>The first layer\<close>

text \<open>\<^verbatim>\<open>deps, exists := dependsOn[value]; if !exists || len(deps) == 0\<close>\<close>

definition no_deps :: "'a tables \<Rightarrow> 'a \<Rightarrow> bool" where
  "no_deps t v = (case dependsOn t v of None \<Rightarrow> True | Some ds \<Rightarrow> length ds = 0)"

definition first_layer :: "'a tables \<Rightarrow> 'a list \<Rightarrow> 'a list" where
  "first_layer t ks = filter (no_deps t) ks"

subsection \<open>One round of the layer loop\<close>

text \<open>\<^verbatim>\<open>for _, value := range currentLayer { visited[value] = true }\<close>\<close>

definition mark_visited :: "'a list \<Rightarrow> 'a set \<Rightarrow> 'a set" where
  "mark_visited currentLayer visited = fold insert currentLayer visited"

text \<open>
  \<^verbatim>\<open>allDepsVisited\<close>: the loop over \<^verbatim>\<open>dependsOn[dependent]\<close> that stops at the first
  dependency not yet visited.
\<close>

definition allDepsVisited :: "'a tables \<Rightarrow> 'a set \<Rightarrow> 'a \<Rightarrow> bool" where
  "allDepsVisited t visited dependent =
     list_all (\<lambda>dep. dep \<in> visited) (lookup (dependsOn t) dependent)"

text \<open>
  The body of \<^verbatim>\<open>for _, dependent := range dependedOnBy[value]\<close>, on the pair
  (\<^verbatim>\<open>nextLayer\<close>, \<^verbatim>\<open>layerDepMap\<close>).
\<close>

definition consider_dependent ::
  "'a tables \<Rightarrow> 'a set \<Rightarrow> 'a \<Rightarrow> 'a list \<times> 'a set \<Rightarrow> 'a list \<times> 'a set" where
  "consider_dependent t visited dependent acc =
     (case acc of (nextLayer, layerDepMap) \<Rightarrow>
        if dependent \<in> visited \<or> dependent \<in> layerDepMap then (nextLayer, layerDepMap)
        else if allDepsVisited t visited dependent
             then (nextLayer @ [dependent], insert dependent layerDepMap)
             else (nextLayer, layerDepMap))"

definition scan_layer ::
  "'a tables \<Rightarrow> 'a set \<Rightarrow> 'a list \<Rightarrow> 'a list \<times> 'a set \<Rightarrow> 'a list \<times> 'a set" where
  "scan_layer t visited currentLayer acc =
     fold (\<lambda>value. fold (consider_dependent t visited) (lookup (dependedOnBy t) value))
          currentLayer acc"

definition next_layer :: "'a tables \<Rightarrow> 'a set \<Rightarrow> 'a list \<Rightarrow> 'a list" where
  "next_layer t visited currentLayer = fst (scan_layer t visited currentLayer ([], {}))"

text \<open>
  Every identity of the graph, as an added node or as a dependency of one. The set is
  finite, which bounds the number of rounds.
\<close>

definition identities :: "'a Graph \<Rightarrow> 'a set" where
  "identities g = (\<Union>n \<in> set (nodes g). insert (val n) (set (deps n)))"

text \<open>A recorded edge: some node with value \<open>d\<close> lists \<open>p\<close> among its dependencies.\<close>

definition edge :: "'a Graph \<Rightarrow> 'a \<Rightarrow> 'a \<Rightarrow> bool" where
  "edge g d p = list_ex (\<lambda>n. val n = d \<and> p \<in> set (deps n)) (nodes g)"

subsection \<open>The maps in terms of the node list\<close>

lemma lookup_upd: "lookup (m(k \<mapsto> xs)) k' = (if k' = k then xs else lookup m k')"
  by (simp add: lookup_def)

lemma dependsOn_fold_add_dep: "dependsOn (fold (add_dep v) ds t) = dependsOn t"
  by (induction ds arbitrary: t) (simp_all add: add_dep_def)

lemma allValues_fold_add_dep: "allValues (fold (add_dep v) ds t) = allValues t \<union> set ds"
  by (induction ds arbitrary: t) (auto simp: add_dep_def)

lemma dependedOnBy_fold_add_dep:
  "set (lookup (dependedOnBy (fold (add_dep v) ds t)) p) =
     set (lookup (dependedOnBy t) p) \<union> (if p \<in> set ds then {v} else {})"
  by (induction ds arbitrary: t) (auto simp: add_dep_def lookup_upd)

lemma dependsOn_add_node: "dependsOn (add_node n t) = (dependsOn t)(val n \<mapsto> deps n)"
  by (simp add: add_node_def dependsOn_fold_add_dep)

lemma allValues_add_node:
  "allValues (add_node n t) = allValues t \<union> insert (val n) (set (deps n))"
  by (simp add: add_node_def allValues_fold_add_dep)

lemma dependedOnBy_add_node:
  "set (lookup (dependedOnBy (add_node n t)) p) =
     set (lookup (dependedOnBy t) p) \<union> (if p \<in> set (deps n) then {val n} else {})"
  by (simp add: add_node_def dependedOnBy_fold_add_dep)

lemma build_tables_snoc: "build_tables (ns @ [n]) = add_node n (build_tables ns)"
  by (simp add: build_tables_def)

lemma build_tables_Nil: "build_tables [] = empty_tables"
  by (simp add: build_tables_def)

lemma allValues_build_tables:
  "allValues (build_tables ns) = (\<Union>n \<in> set ns. insert (val n) (set (deps n)))"
  by (induction ns rule: rev_induct)
     (auto simp: build_tables_snoc build_tables_Nil empty_tables_def allValues_add_node)

lemma allValues_build: "allValues (build g) = identities g"
  by (simp add: build_def identities_def allValues_build_tables)

lemma dependsOn_build_tables:
  "dependsOn (build_tables ns) = map_of (rev (map (\<lambda>n. (val n, deps n)) ns))"
  by (induction ns rule: rev_induct)
     (auto simp: build_tables_snoc build_tables_Nil empty_tables_def dependsOn_add_node)

lemma dependsOn_build_Some:
  "dependsOn (build g) x = Some ds \<Longrightarrow> \<exists>n \<in> set (nodes g). val n = x \<and> deps n = ds"
  unfolding build_def dependsOn_build_tables
  by (auto dest!: map_of_SomeD)

lemma dependsOn_build_None:
  "dependsOn (build g) x = None \<longleftrightarrow> x \<notin> val ` set (nodes g)"
  unfolding build_def dependsOn_build_tables
  by (auto simp: map_of_eq_None_iff image_image)

lemma dependedOnBy_build_tables:
  "set (lookup (dependedOnBy (build_tables ns)) p) =
     {d. \<exists>n \<in> set ns. val n = d \<and> p \<in> set (deps n)}"
proof (induction ns rule: rev_induct)
  case Nil
  show ?case by (simp add: build_tables_Nil empty_tables_def lookup_def)
next
  case (snoc n ns)
  show ?case
    unfolding build_tables_snoc dependedOnBy_add_node snoc.IH by auto
qed

lemma dependedOnBy_build: "set (lookup (dependedOnBy (build g)) p) = {d. edge g d p}"
  by (simp add: build_def dependedOnBy_build_tables edge_def list_ex_iff)

lemma edge_identities: "edge g d p \<Longrightarrow> d \<in> identities g \<and> p \<in> identities g"
  by (auto simp: edge_def list_ex_iff identities_def)

lemma dependsOn_edge:
  "dependsOn (build g) d = Some ds \<Longrightarrow> p \<in> set ds \<Longrightarrow> edge g d p"
  by (auto dest!: dependsOn_build_Some simp: edge_def list_ex_iff)

lemma finite_identities: "finite (identities g)"
  by (simp add: identities_def)

subsection \<open>What one round of the layer loop computes\<close>

lemma consider_dependent_inv:
  assumes "snd acc = set (fst acc)"
  shows "snd (consider_dependent t V d acc) = set (fst (consider_dependent t V d acc))"
  using assms by (cases acc) (simp add: consider_dependent_def)

lemma fold_consider:
  assumes "snd acc = set (fst acc)"
  shows "snd (fold (consider_dependent t V) ds acc) = set (fst (fold (consider_dependent t V) ds acc))
       \<and> set (fst (fold (consider_dependent t V) ds acc)) =
           set (fst acc) \<union> {d \<in> set ds. d \<notin> V \<and> allDepsVisited t V d}
       \<and> (distinct (fst acc) \<longrightarrow> distinct (fst (fold (consider_dependent t V) ds acc)))"
  using assms
proof (induction ds arbitrary: acc)
  case Nil
  then show ?case by simp
next
  case (Cons d ds)
  obtain nl ldm where acc: "acc = (nl, ldm)" by (cases acc)
  with Cons.prems have ldm: "ldm = set nl" by simp
  let ?acc' = "consider_dependent t V d acc"
  have inv': "snd ?acc' = set (fst ?acc')"
    using Cons.prems by (rule consider_dependent_inv)
  have s: "set (fst ?acc') = set nl \<union> {x. x = d \<and> d \<notin> V \<and> allDepsVisited t V d}"
    by (auto simp: acc ldm consider_dependent_def)
  have di: "distinct nl \<Longrightarrow> distinct (fst ?acc')"
    by (auto simp: acc ldm consider_dependent_def)
  from Cons.IH[OF inv'] s di show ?case
    by (auto simp: acc)
qed

lemma scan_layer_props:
  assumes "snd acc = set (fst acc)"
  shows "snd (scan_layer t V cur acc) = set (fst (scan_layer t V cur acc))
       \<and> set (fst (scan_layer t V cur acc)) =
           set (fst acc) \<union> {d. d \<notin> V \<and> allDepsVisited t V d \<and>
                                 (\<exists>v \<in> set cur. d \<in> set (lookup (dependedOnBy t) v))}
       \<and> (distinct (fst acc) \<longrightarrow> distinct (fst (scan_layer t V cur acc)))"
  using assms
proof (induction cur arbitrary: acc)
  case Nil
  then show ?case by (simp add: scan_layer_def)
next
  case (Cons v cur)
  let ?acc' = "fold (consider_dependent t V) (lookup (dependedOnBy t) v) acc"
  note f = fold_consider[OF Cons.prems, of t V "lookup (dependedOnBy t) v"]
  have step: "scan_layer t V (v # cur) acc = scan_layer t V cur ?acc'"
    by (simp add: scan_layer_def)
  from f have inv': "snd ?acc' = set (fst ?acc')" by blast
  from Cons.IH[OF inv'] f show ?case
    unfolding step by auto
qed

lemma set_next_layer:
  "set (next_layer t V cur) =
     {d. d \<notin> V \<and> allDepsVisited t V d \<and> (\<exists>v \<in> set cur. d \<in> set (lookup (dependedOnBy t) v))}"
  using scan_layer_props[of "([], {})" t V cur] by (simp add: next_layer_def)

lemma distinct_next_layer: "distinct (next_layer t V cur)"
  using scan_layer_props[of "([], {})" t V cur] by (simp add: next_layer_def)

lemma mark_visited_eq: "mark_visited cur V = V \<union> set cur"
  unfolding mark_visited_def by (induction cur arbitrary: V) auto

lemma allDepsVisited_iff: "allDepsVisited t V d \<longleftrightarrow> set (lookup (dependsOn t) d) \<subseteq> V"
  by (auto simp: allDepsVisited_def list_all_iff)

lemma next_layer_subset: "set (next_layer (build g) V cur) \<subseteq> identities g - V"
  by (auto simp: set_next_layer dependedOnBy_build dest: edge_identities)

subsection \<open>The layer loop and SortByLayers\<close>

text \<open>
  \<^verbatim>\<open>for len(currentLayer) > 0 { ... }\<close> on the variables \<^verbatim>\<open>result\<close>, \<^verbatim>\<open>visited\<close> and
  \<^verbatim>\<open>currentLayer\<close>. The maps of the first pass are never written in the loop, so each
  round reads them as \<open>build g\<close>. The function returns \<^verbatim>\<open>result\<close> and \<^verbatim>\<open>visited\<close> as they
  are when the loop ends; it ends because every round with a non-empty next layer marks
  identities of the (finite) graph that were not marked before.
\<close>

function layers_loop ::
  "'a Graph \<Rightarrow> 'a list list \<Rightarrow> 'a set \<Rightarrow> 'a list \<Rightarrow> 'a list list \<times> 'a set" where
  "layers_loop g result visited currentLayer =
     (if length currentLayer > 0 then
        (let result' = result @ [currentLayer];
             visited' = mark_visited currentLayer visited;
             nextLayer = next_layer (build g) visited' currentLayer
         in layers_loop g result' visited' nextLayer)
      else (result, visited))"
  by pat_completeness auto
termination
proof (relation "measure (\<lambda>(g, result, visited, cur).
          card (identities g - visited - set cur) + (if cur = [] then 0 else 1))")
  show "wf (measure (\<lambda>(g, result, visited, cur).
          card (identities g - visited - set cur) + (if cur = [] then 0 else 1)))"
    by simp
next
  fix g :: "'a Graph" and result :: "'a list list" and visited :: "'a set"
    and currentLayer :: "'a list" and x xa xb
  assume ne: "0 < length currentLayer"
    and x: "x = result @ [currentLayer]"
    and xa: "xa = mark_visited currentLayer visited"
    and xb: "xb = next_layer (build g) xa currentLayer"
  let ?R = "identities g - visited - set currentLayer"
  have V': "xa = visited \<union> set currentLayer"
    by (simp add: xa mark_visited_eq)
  have sub: "set xb \<subseteq> ?R"
    using next_layer_subset[of g xa currentLayer] by (auto simp: xb V')
  have fin: "finite ?R"
    by (simp add: finite_identities)
  have eq: "identities g - xa - set xb = ?R - set xb"
    by (auto simp: V')
  have "card (?R - set xb) + (if xb = [] then 0 else 1) < card ?R + 1"
  proof (cases "xb = []")
    case True
    then show ?thesis by simp
  next
    case False
    then obtain e where e: "e \<in> set xb" by (cases xb) auto
    with sub have "e \<in> ?R" "e \<notin> ?R - set xb" by auto
    then have "?R - set xb \<subset> ?R" by blast
    with fin have "card (?R - set xb) < card ?R"
      by (rule psubset_card_mono)
    with False show ?thesis by simp
  qed
  with ne show "((g, x, xa, xb), g, result, visited, currentLayer)
      \<in> measure (\<lambda>(g, result, visited, cur).
          card (identities g - visited - set cur) + (if cur = [] then 0 else 1))"
    by (simp add: eq)
qed

declare layers_loop.simps [simp del]

text \<open>
  The last loop, \<^verbatim>\<open>for value := range allValues\<close>, returns the error at the first key that
  is not visited and has a stored, non-empty dependency list; \<open>ks\<close> is the order of the keys.
\<close>

fun has_unresolved :: "'a tables \<Rightarrow> 'a set \<Rightarrow> 'a list \<Rightarrow> bool" where
  "has_unresolved t visited [] = False"
| "has_unresolved t visited (v # vs) =
     (if v \<notin> visited \<and> (case dependsOn t v of None \<Rightarrow> False | Some ds \<Rightarrow> length ds > 0)
      then True
      else has_unresolved t visited vs)"

text \<open>
  What a call leaves behind: the two returned values and the receiver \<^verbatim>\<open>g\<close> after the call.
  A nil slice is the empty list.
\<close>

record 'a sort_result =
  ret_layers :: "'a list list"
  ret_err :: "error option"
  graph_after :: "'a Graph"

text \<open>
  \<^verbatim>\<open>func (g *Graph[T]) SortByLayers() ([][]T, error)\<close>; \<open>ks1\<close> and \<open>ks2\<close> are the orders in
  which the two loops over \<^verbatim>\<open>allValues\<close> meet its keys.
\<close>

definition SortByLayers :: "'a list \<Rightarrow> 'a list \<Rightarrow> 'a Graph \<Rightarrow> 'a sort_result" where
  "SortByLayers ks1 ks2 g =
     (let t = build g;
          currentLayer = first_layer t ks1
      in case layers_loop g [] {} currentLayer of
           (result, visited) \<Rightarrow>
             if has_unresolved t visited ks2
             then \<lparr>ret_layers = [], ret_err = Some ErrCyclicDependency, graph_after = g\<rparr>
             else \<lparr>ret_layers = result, ret_err = None, graph_after = g\<rparr>)"

subsection \<open>Invariants of the layer loop\<close>

text \<open>
  The loop keeps five facts about \<^verbatim>\<open>result\<close> (\<open>r\<close>), \<^verbatim>\<open>visited\<close> (\<open>V\<close>) and
  \<^verbatim>\<open>currentLayer\<close> (\<open>c\<close>): the visited identities are those of the layers so far and no
  identity occurs twice; the stored dependencies of an identity lie in strictly earlier
  layers; an identity whose stored dependencies are all visited is visited or in the current
  layer; an identity of a later layer has a stored dependency in the layer just before;
  and the first layer is the one the loop started with.
\<close>

definition inv_basic :: "'a Graph \<Rightarrow> 'a list list \<Rightarrow> 'a set \<Rightarrow> 'a list \<Rightarrow> bool" where
  "inv_basic g r V c \<longleftrightarrow>
     V = set (concat r) \<and> distinct (concat r @ c) \<and> [] \<notin> set r \<and>
     set c \<subseteq> identities g \<and> V \<subseteq> identities g"

definition inv_order :: "'a Graph \<Rightarrow> 'a list list \<Rightarrow> 'a set \<Rightarrow> 'a list \<Rightarrow> bool" where
  "inv_order g r V c \<longleftrightarrow>
     (\<forall>x \<in> set c. set (lookup (dependsOn (build g)) x) \<subseteq> V) \<and>
     (\<forall>j < length r. \<forall>x \<in> set (r ! j). \<forall>p \<in> set (lookup (dependsOn (build g)) x).
        \<exists>i < j. p \<in> set (r ! i))"

definition inv_full :: "'a Graph \<Rightarrow> 'a set \<Rightarrow> 'a list \<Rightarrow> bool" where
  "inv_full g V c \<longleftrightarrow>
     (\<forall>x ds. dependsOn (build g) x = Some ds \<longrightarrow> set ds \<subseteq> V \<longrightarrow> x \<in> V \<union> set c) \<and>
     (\<forall>x \<in> identities g. dependsOn (build g) x = None \<longrightarrow> x \<in> V \<union> set c)"

definition inv_tight :: "'a Graph \<Rightarrow> 'a list list \<Rightarrow> 'a list \<Rightarrow> bool" where
  "inv_tight g r c \<longleftrightarrow>
     (\<forall>j < length r. 0 < j \<longrightarrow>
        (\<forall>x \<in> set (r ! j). \<exists>p \<in> set (lookup (dependsOn (build g)) x). p \<in> set (r ! (j - 1)))) \<and>
     (r \<noteq> [] \<longrightarrow> (\<forall>x \<in> set c. \<exists>p \<in> set (lookup (dependsOn (build g)) x). p \<in> set (last r)))"

definition loop_inv :: "'a Graph \<Rightarrow> 'a list \<Rightarrow> 'a list list \<Rightarrow> 'a set \<Rightarrow> 'a list \<Rightarrow> bool" where
  "loop_inv g l0 r V c \<longleftrightarrow>
     inv_basic g r V c \<and> inv_order g r V c \<and> inv_full g V c \<and> inv_tight g r c \<and>
     hd (r @ [c]) = l0"

lemma layers_loop_rule:
  assumes init: "P result visited cur"
    and step: "\<And>r V c. P r V c \<Longrightarrow> c \<noteq> [] \<Longrightarrow>
                 P (r @ [c]) (V \<union> set c) (next_layer (build g) (V \<union> set c) c)"
  shows "P (fst (layers_loop g result visited cur)) (snd (layers_loop g result visited cur)) []"
  using init step
proof (induction g result visited cur rule: layers_loop.induct)
  case (1 g result visited currentLayer)
  show ?case
  proof (cases "currentLayer = []")
    case True
    with "1.prems"(1) show ?thesis by (simp add: layers_loop.simps)
  next
    case False
    let ?V = "visited \<union> set currentLayer"
    let ?n = "next_layer (build g) ?V currentLayer"
    have unf: "layers_loop g result visited currentLayer =
               layers_loop g (result @ [currentLayer]) ?V ?n"
      using False by (subst layers_loop.simps) (simp add: mark_visited_eq Let_def)
    have "P (result @ [currentLayer]) ?V ?n"
      using "1.prems"(1) False by (rule "1.prems"(2))
    with "1.IH"[of "result @ [currentLayer]" "mark_visited currentLayer visited" ?n] False
      "1.prems"(2)
    show ?thesis
      unfolding unf by (simp add: mark_visited_eq)
  qed
qed

lemma in_concat_nth: "x \<in> set (concat r) \<longleftrightarrow> (\<exists>i < length r. x \<in> set (r ! i))"
proof
  assume "x \<in> set (concat r)"
  then obtain l where "l \<in> set r" "x \<in> set l" by auto
  then show "\<exists>i < length r. x \<in> set (r ! i)"
    by (auto simp: in_set_conv_nth)
next
  assume "\<exists>i < length r. x \<in> set (r ! i)"
  then obtain i where "i < length r" "x \<in> set (r ! i)" by blast
  then show "x \<in> set (concat r)"
    using nth_mem[of i r] by auto
qed

lemma next_layer_deps:
  "x \<in> set (next_layer t V c) \<Longrightarrow> set (lookup (dependsOn t) x) \<subseteq> V"
  by (simp add: set_next_layer allDepsVisited_iff)

lemma inv_basic_step:
  assumes "inv_basic g r V c" and "c \<noteq> []"
  shows "inv_basic g (r @ [c]) (V \<union> set c) (next_layer (build g) (V \<union> set c) c)"
proof -
  let ?n = "next_layer (build g) (V \<union> set c) c"
  from assms have V: "V = set (concat r)" and d: "distinct (concat r @ c)"
    and ne: "[] \<notin> set r" and cs: "set c \<subseteq> identities g" and Vs: "V \<subseteq> identities g"
    by (auto simp: inv_basic_def)
  have sub: "set ?n \<subseteq> identities g - (V \<union> set c)"
    by (rule next_layer_subset)
  have 1: "V \<union> set c = set (concat (r @ [c]))"
    using V by auto
  have 2: "distinct (concat (r @ [c]) @ ?n)"
    using d sub distinct_next_layer[of "build g" "V \<union> set c" c] V by auto
  have 3: "[] \<notin> set (r @ [c])"
    using ne assms(2) by auto
  have 4: "set ?n \<subseteq> identities g" "V \<union> set c \<subseteq> identities g"
    using sub cs Vs by auto
  show ?thesis
    unfolding inv_basic_def using 1 2 3 4 by (intro conjI)
qed

lemma inv_order_step:
  assumes b: "inv_basic g r V c" and o: "inv_order g r V c"
  shows "inv_order g (r @ [c]) (V \<union> set c) (next_layer (build g) (V \<union> set c) c)"
  unfolding inv_order_def
proof (intro conjI ballI allI impI)
  fix x assume "x \<in> set (next_layer (build g) (V \<union> set c) c)"
  then show "set (lookup (dependsOn (build g)) x) \<subseteq> V \<union> set c"
    by (rule next_layer_deps)
next
  fix j x p
  assume j: "j < length (r @ [c])" and x: "x \<in> set ((r @ [c]) ! j)"
    and p: "p \<in> set (lookup (dependsOn (build g)) x)"
  show "\<exists>i<j. p \<in> set ((r @ [c]) ! i)"
  proof (cases "j < length r")
    case True
    with x have "x \<in> set (r ! j)" by (simp add: nth_append)
    with o True p obtain i where i: "i < j" "p \<in> set (r ! i)"
      unfolding inv_order_def by blast
    with True have "p \<in> set ((r @ [c]) ! i)" by (simp add: nth_append)
    with i(1) show ?thesis by blast
  next
    case False
    with j have jl: "j = length r" by simp
    with x have "x \<in> set c" by simp
    with o p have "p \<in> V" unfolding inv_order_def by blast
    with b have "p \<in> set (concat r)" by (simp add: inv_basic_def)
    then obtain i where i: "i < length r" "p \<in> set (r ! i)"
      unfolding in_concat_nth by blast
    then have "p \<in> set ((r @ [c]) ! i)" by (simp add: nth_append)
    with i(1) jl show ?thesis by blast
  qed
qed

lemma dependsOn_dependedOnBy:
  assumes "dependsOn (build g) x = Some ds" and "p \<in> set ds"
  shows "x \<in> set (lookup (dependedOnBy (build g)) p)"
  using dependsOn_edge[OF assms] by (simp add: dependedOnBy_build)

lemma inv_full_step:
  assumes f: "inv_full g V c"
  shows "inv_full g (V \<union> set c) (next_layer (build g) (V \<union> set c) c)"
  unfolding inv_full_def
proof (intro conjI ballI allI impI)
  fix x ds
  assume ds: "dependsOn (build g) x = Some ds" and sub: "set ds \<subseteq> V \<union> set c"
  let ?n = "next_layer (build g) (V \<union> set c) c"
  show "x \<in> V \<union> set c \<union> set ?n"
  proof (cases "set ds \<subseteq> V")
    case True
    with f ds show ?thesis unfolding inv_full_def by blast
  next
    case False
    then obtain p where p: "p \<in> set ds" "p \<notin> V" by blast
    with sub have pc: "p \<in> set c" by blast
    have dep: "x \<in> set (lookup (dependedOnBy (build g)) p)"
      using ds p(1) by (rule dependsOn_dependedOnBy)
    have adv: "allDepsVisited (build g) (V \<union> set c) x"
      using ds sub by (simp add: allDepsVisited_iff lookup_def)
    show ?thesis
    proof (cases "x \<in> V \<union> set c")
      case True then show ?thesis by blast
    next
      case False
      with dep adv pc have "x \<in> set ?n"
        unfolding set_next_layer by blast
      then show ?thesis by blast
    qed
  qed
next
  fix x assume "x \<in> identities g" "dependsOn (build g) x = None"
  with f show "x \<in> V \<union> set c \<union> set (next_layer (build g) (V \<union> set c) c)"
    unfolding inv_full_def by blast
qed

lemma next_layer_has_entry:
  assumes "x \<in> set (next_layer (build g) V c)"
  shows "\<exists>ds. dependsOn (build g) x = Some ds"
proof -
  from assms obtain v where "x \<in> set (lookup (dependedOnBy (build g)) v)"
    unfolding set_next_layer by blast
  then have "edge g x v" by (simp add: dependedOnBy_build)
  then have "x \<in> val ` set (nodes g)"
    by (auto simp: edge_def list_ex_iff)
  then have "dependsOn (build g) x \<noteq> None"
    by (simp add: dependsOn_build_None)
  then show ?thesis by blast
qed

lemma inv_tight_step:
  assumes f: "inv_full g V c" and t: "inv_tight g r c" and ne: "c \<noteq> []"
  shows "inv_tight g (r @ [c]) (next_layer (build g) (V \<union> set c) c)"
  unfolding inv_tight_def
proof (intro conjI ballI allI impI)
  fix j x
  assume j: "j < length (r @ [c])" and j0: "0 < j" and x: "x \<in> set ((r @ [c]) ! j)"
  show "\<exists>p\<in>set (lookup (dependsOn (build g)) x). p \<in> set ((r @ [c]) ! (j - 1))"
  proof (cases "j < length r")
    case True
    with x have "x \<in> set (r ! j)" by (simp add: nth_append)
    with t True j0 obtain p where p: "p \<in> set (lookup (dependsOn (build g)) x)" "p \<in> set (r ! (j - 1))"
      unfolding inv_tight_def by blast
    from True have "j - 1 < length r" by simp
    then have "(r @ [c]) ! (j - 1) = r ! (j - 1)" by (simp only: nth_append if_True)
    with p show ?thesis by auto
  next
    case False
    with j have jl: "j = length r" by simp
    with j0 have rne: "r \<noteq> []" by auto
    from jl x have "x \<in> set c" by simp
    with t rne obtain p where p: "p \<in> set (lookup (dependsOn (build g)) x)" "p \<in> set (last r)"
      unfolding inv_tight_def by blast
    from rne jl have "(r @ [c]) ! (j - 1) = last r"
      by (simp add: nth_append last_conv_nth)
    with p show ?thesis by auto
  qed
next
  fix x
  assume x: "x \<in> set (next_layer (build g) (V \<union> set c) c)"
  from next_layer_has_entry[OF x] obtain ds where ds: "dependsOn (build g) x = Some ds" ..
  from x have nv: "x \<notin> V \<union> set c" and sub: "set (lookup (dependsOn (build g)) x) \<subseteq> V \<union> set c"
    by (simp_all add: set_next_layer allDepsVisited_iff)
  from ds sub have sub': "set ds \<subseteq> V \<union> set c" by (simp add: lookup_def)
  have "\<not> set ds \<subseteq> V"
    using f ds nv unfolding inv_full_def by blast
  then obtain p where "p \<in> set ds" "p \<notin> V" by blast
  with sub' have "p \<in> set c" by blast
  with \<open>p \<in> set ds\<close> ds show "\<exists>p\<in>set (lookup (dependsOn (build g)) x). p \<in> set (last (r @ [c]))"
    by (auto simp: lookup_def)
qed

lemma loop_inv_step:
  assumes "loop_inv g l0 r V c" and "c \<noteq> []"
  shows "loop_inv g l0 (r @ [c]) (V \<union> set c) (next_layer (build g) (V \<union> set c) c)"
proof -
  from assms(1) have b: "inv_basic g r V c" and o: "inv_order g r V c"
    and f: "inv_full g V c" and t: "inv_tight g r c" and h: "hd (r @ [c]) = l0"
    by (simp_all add: loop_inv_def)
  have "hd ((r @ [c]) @ [next_layer (build g) (V \<union> set c) c]) = l0"
    using h by (cases r) simp_all
  with inv_basic_step[OF b assms(2)] inv_order_step[OF b o] inv_full_step[OF f]
    inv_tight_step[OF f t assms(2)]
  show ?thesis unfolding loop_inv_def by blast
qed

lemma no_deps_iff: "no_deps t x \<longleftrightarrow> lookup (dependsOn t) x = []"
  by (simp add: no_deps_def lookup_def split: option.splits)

lemma loop_inv_init:
  assumes "iteration_order (allValues (build g)) ks"
  shows "loop_inv g (first_layer (build g) ks) [] {} (first_layer (build g) ks)"
proof -
  let ?l = "first_layer (build g) ks"
  from assms have d: "distinct ks" and s: "set ks = identities g"
    by (simp_all add: iteration_order_def allValues_build)
  have sl: "set ?l = {x \<in> identities g. no_deps (build g) x}"
    using s by (auto simp: first_layer_def)
  have b: "inv_basic g [] {} ?l"
    using d sl by (auto simp: inv_basic_def first_layer_def)
  have o: "inv_order g [] {} ?l"
    using sl by (auto simp: inv_order_def no_deps_iff)
  have f: "inv_full g {} ?l"
    unfolding inv_full_def
  proof (intro conjI ballI allI impI)
    fix x ds assume ds: "dependsOn (build g) x = Some ds" and "set ds \<subseteq> {}"
    then have "no_deps (build g) x" by (simp add: no_deps_def)
    moreover from ds have "x \<in> identities g"
      by (auto dest!: dependsOn_build_Some simp: identities_def)
    ultimately show "x \<in> {} \<union> set ?l" using sl by simp
  next
    fix x assume "x \<in> identities g" "dependsOn (build g) x = None"
    then show "x \<in> {} \<union> set ?l" using sl by (simp add: no_deps_def)
  qed
  have t: "inv_tight g [] ?l" by (simp add: inv_tight_def)
  from b o f t show ?thesis by (simp add: loop_inv_def)
qed

lemma loop_inv_final:
  assumes "iteration_order (allValues (build g)) ks"
  shows "loop_inv g (first_layer (build g) ks)
           (fst (layers_loop g [] {} (first_layer (build g) ks)))
           (snd (layers_loop g [] {} (first_layer (build g) ks))) []"
  by (rule layers_loop_rule[where P = "loop_inv g (first_layer (build g) ks)"])
     (rule loop_inv_init[OF assms], rule loop_inv_step)

subsection \<open>The outcome of SortByLayers\<close>

text \<open>\<^verbatim>\<open>result\<close> and \<^verbatim>\<open>visited\<close> when the layer loop has ended.\<close>

definition final_layers :: "'a Graph \<Rightarrow> 'a list \<Rightarrow> 'a list list" where
  "final_layers g ks1 = fst (layers_loop g [] {} (first_layer (build g) ks1))"

definition final_visited :: "'a Graph \<Rightarrow> 'a list \<Rightarrow> 'a set" where
  "final_visited g ks1 = snd (layers_loop g [] {} (first_layer (build g) ks1))"

text \<open>
  The index of the first layer that holds \<open>x\<close>, as the test helper
  \<^verbatim>\<open>validateLayerDependencies\<close> computes it with its map \<^verbatim>\<open>nodeLayer\<close>.
\<close>

fun layer_index :: "'a list list \<Rightarrow> 'a \<Rightarrow> nat option" where
  "layer_index [] x = None"
| "layer_index (l # ls) x =
     (if x \<in> set l then Some 0 else map_option Suc (layer_index ls x))"

text \<open>\<open>p\<close> and \<open>d\<close> are both in a layer, and the layer of \<open>p\<close> comes first.\<close>

definition strictly_earlier :: "'a list list \<Rightarrow> 'a \<Rightarrow> 'a \<Rightarrow> bool" where
  "strictly_earlier ls p d =
     (case (layer_index ls p, layer_index ls d) of
        (Some i, Some j) \<Rightarrow> i < j
      | _ \<Rightarrow> False)"

text \<open>
  \<open>p\<close> is in the dependency list that \<^verbatim>\<open>dependsOn\<close> holds for \<open>d\<close>: the list of the last
  node added with value \<open>d\<close>.
\<close>

definition stored_dep :: "'a Graph \<Rightarrow> 'a \<Rightarrow> 'a \<Rightarrow> bool" where
  "stored_dep g d p \<longleftrightarrow> p \<in> set (lookup (dependsOn (build g)) d)"

lemma SortByLayers_unfold:
  "SortByLayers ks1 ks2 g =
     (if has_unresolved (build g) (final_visited g ks1) ks2
      then \<lparr>ret_layers = [], ret_err = Some ErrCyclicDependency, graph_after = g\<rparr>
      else \<lparr>ret_layers = final_layers g ks1, ret_err = None, graph_after = g\<rparr>)"
  by (simp add: SortByLayers_def final_layers_def final_visited_def Let_def split: prod.splits)

lemma has_unresolved_iff:
  "has_unresolved t V ks \<longleftrightarrow>
     (\<exists>v \<in> set ks. v \<notin> V \<and> (\<exists>ds. dependsOn t v = Some ds \<and> ds \<noteq> []))"
  by (induction ks) (auto split: option.splits)

lemma final_inv:
  assumes "iteration_order (allValues (build g)) ks1"
  shows "loop_inv g (first_layer (build g) ks1) (final_layers g ks1) (final_visited g ks1) []"
  unfolding final_layers_def final_visited_def by (rule loop_inv_final[OF assms])

lemma success_iff:
  "ret_err (SortByLayers ks1 ks2 g) = None \<longleftrightarrow>
     \<not> has_unresolved (build g) (final_visited g ks1) ks2"
  by (simp add: SortByLayers_unfold)

lemma success_layers:
  "ret_err (SortByLayers ks1 ks2 g) = None \<Longrightarrow>
     ret_layers (SortByLayers ks1 ks2 g) = final_layers g ks1"
  by (simp add: SortByLayers_unfold split: if_splits)

lemma success_all_visited:
  assumes o1: "iteration_order (allValues (build g)) ks1"
    and o2: "iteration_order (allValues (build g)) ks2"
    and ok: "ret_err (SortByLayers ks1 ks2 g) = None"
  shows "final_visited g ks1 = identities g"
proof
  from final_inv[OF o1] show "final_visited g ks1 \<subseteq> identities g"
    by (auto simp: loop_inv_def inv_basic_def)
next
  from final_inv[OF o1] have f: "inv_full g (final_visited g ks1) []"
    by (simp add: loop_inv_def)
  from o2 have s2: "set ks2 = identities g"
    by (simp add: iteration_order_def allValues_build)
  from ok have nu: "\<not> has_unresolved (build g) (final_visited g ks1) ks2"
    by (simp add: success_iff)
  show "identities g \<subseteq> final_visited g ks1"
  proof
    fix x assume x: "x \<in> identities g"
    show "x \<in> final_visited g ks1"
    proof (cases "dependsOn (build g) x")
      case None
      with f x show ?thesis by (simp add: inv_full_def)
    next
      case (Some ds)
      show ?thesis
      proof (cases "ds = []")
        case True
        with f Some show ?thesis by (simp add: inv_full_def)
      next
        case False
        with nu Some x s2 show ?thesis
          unfolding has_unresolved_iff by blast
      qed
    qed
  qed
qed

lemma layer_index_Some_iff:
  "layer_index ls x = Some i \<longleftrightarrow>
     i < length ls \<and> x \<in> set (ls ! i) \<and> (\<forall>k < i. x \<notin> set (ls ! k))"
proof (induction ls arbitrary: i)
  case Nil
  show ?case by simp
next
  case (Cons l ls)
  show ?case
  proof (cases "x \<in> set l")
    case True
    then show ?thesis by (cases i) auto
  next
    case False
    show ?thesis
    proof (cases i)
      case 0
      with False show ?thesis by simp
    next
      case (Suc m)
      have "(\<forall>k < Suc m. x \<notin> set ((l # ls) ! k)) \<longleftrightarrow> (\<forall>k < m. x \<notin> set (ls ! k))"
        using False by (auto simp: less_Suc_eq_0_disj)
      with False Suc Cons.IH[of m] show ?thesis by auto
    qed
  qed
qed

lemma layer_index_exists:
  assumes "x \<in> set (concat ls)"
  shows "\<exists>i. layer_index ls x = Some i"
  using assms by (induction ls) auto

lemma strictly_earlierI:
  assumes d: "d \<in> set (concat ls)"
    and ord: "\<And>j. j < length ls \<Longrightarrow> d \<in> set (ls ! j) \<Longrightarrow> \<exists>i < j. p \<in> set (ls ! i)"
  shows "strictly_earlier ls p d"
proof -
  from layer_index_exists[OF d] obtain j where j: "layer_index ls d = Some j" ..
  then have "j < length ls" "d \<in> set (ls ! j)"
    by (simp_all add: layer_index_Some_iff)
  from ord[OF this] obtain i where i: "i < j" "p \<in> set (ls ! i)" by blast
  with \<open>j < length ls\<close> have "p \<in> set (concat ls)"
    unfolding in_concat_nth by (meson less_trans)
  from layer_index_exists[OF this] obtain i' where i': "layer_index ls p = Some i'" ..
  then have "\<forall>k < i'. p \<notin> set (ls ! k)"
    by (simp add: layer_index_Some_iff)
  with i have "i' \<le> i" by (meson not_le)
  with i(1) i' j show ?thesis by (simp add: strictly_earlier_def)
qed

lemma stored_dep_earlier:
  assumes o1: "iteration_order (allValues (build g)) ks1"
    and o2: "iteration_order (allValues (build g)) ks2"
    and ok: "ret_err (SortByLayers ks1 ks2 g) = None"
    and sd: "stored_dep g d p"
  shows "strictly_earlier (ret_layers (SortByLayers ks1 ks2 g)) p d"
proof -
  let ?L = "final_layers g ks1"
  from final_inv[OF o1] have b: "inv_basic g ?L (final_visited g ks1) []"
    and o: "inv_order g ?L (final_visited g ks1) []"
    by (simp_all add: loop_inv_def)
  from sd obtain ds where ds: "dependsOn (build g) d = Some ds"
    by (cases "dependsOn (build g) d") (auto simp: stored_dep_def lookup_def)
  then have "d \<in> identities g"
    by (auto dest!: dependsOn_build_Some simp: identities_def)
  with success_all_visited[OF o1 o2 ok] b have d: "d \<in> set (concat ?L)"
    by (auto simp: inv_basic_def)
  have "strictly_earlier ?L p d"
  proof (rule strictly_earlierI[OF d])
    fix j assume "j < length ?L" "d \<in> set (?L ! j)"
    with o sd show "\<exists>i < j. p \<in> set (?L ! i)"
      unfolding inv_order_def stored_dep_def by blast
  qed
  with success_layers[OF ok] show ?thesis by simp
qed

lemma distinct_vals_dependsOn:
  assumes "distinct (map val (nodes g))" and "n \<in> set (nodes g)"
  shows "dependsOn (build g) (val n) = Some (deps n)"
proof -
  have "distinct (map fst (rev (map (\<lambda>n. (val n, deps n)) (nodes g))))"
    using assms(1) by (simp add: rev_map[symmetric] comp_def)
  moreover have "(val n, deps n) \<in> set (rev (map (\<lambda>n. (val n, deps n)) (nodes g)))"
    using assms(2) by auto
  ultimately show ?thesis
    unfolding build_def dependsOn_build_tables by (rule map_of_is_SomeI)
qed

lemma distinct_vals_edge:
  assumes "distinct (map val (nodes g))"
  shows "edge g d p \<longleftrightarrow> stored_dep g d p"
proof
  assume "edge g d p"
  then obtain n where n: "n \<in> set (nodes g)" "val n = d" "p \<in> set (deps n)"
    by (auto simp: edge_def list_ex_iff)
  with distinct_vals_dependsOn[OF assms n(1)] show "stored_dep g d p"
    by (simp add: stored_dep_def lookup_def)
next
  assume "stored_dep g d p"
  then show "edge g d p"
    by (cases "dependsOn (build g) d")
       (auto simp: stored_dep_def lookup_def intro: dependsOn_edge)
qed

subsection \<open>Example graphs\<close>

text \<open>The graph of the test \<^verbatim>\<open>GenericTypes\<close>.\<close>

definition diamond :: "int Graph" where
  "diamond = AddNode (AddNode (AddNode (AddNode empty_graph 1 []) 2 [1]) 3 [1]) 4 [2, 3]"

text \<open>One identity added twice: first with a dependency, then with none.\<close>

definition readded :: "int Graph" where
  "readded = AddNode (AddNode empty_graph 1 [2]) 1 []"

text \<open>The cyclic graph of the tests: A needs C, B needs A, C needs B.\<close>

definition three_cycle :: "int Graph" where
  "three_cycle = AddNode (AddNode (AddNode empty_graph 1 [3]) 2 [1]) 3 [2]"

text \<open>An identity added with itself as dependency, then added again with none.\<close>

definition self_cleared :: "int Graph" where
  "self_cleared = AddNode (AddNode empty_graph 1 [1]) 1 []"

text \<open>An identity added twice with different lists; the first list names a later node.\<close>

definition readded_later :: "int Graph" where
  "readded_later = AddNode (AddNode (AddNode empty_graph 1 [2]) 1 [3]) 2 [3]"

text \<open>Two independent chains: the order within both layers follows the iteration order.\<close>

definition two_chains :: "int Graph" where
  "two_chains = AddNode (AddNode (AddNode (AddNode empty_graph 1 []) 2 []) 3 [1]) 4 [2]"

text \<open>An identity added with no dependency, then added again with one.\<close>

definition dep_given_later :: "int Graph" where
  "dep_given_later = AddNode (AddNode empty_graph 1 []) 1 [2]"

text \<open>The equations that evaluate the model on a concrete graph.\<close>

lemmas graph_eval = AddNode_def empty_graph_def
lemmas build_eval = build_def build_tables_def add_node_def add_dep_def empty_tables_def
  lookup_def
lemmas sort_eval = SortByLayers_def first_layer_def no_deps_def layers_loop.simps
  mark_visited_def next_layer_def scan_layer_def consider_dependent_def allDepsVisited_def
  Let_def

lemma diamond_nodes:
  "nodes diamond = [\<lparr>val = 1, deps = []\<rparr>, \<lparr>val = 2, deps = [1]\<rparr>, \<lparr>val = 3, deps = [1]\<rparr>,
                    \<lparr>val = 4, deps = [2, 3]\<rparr>]"
  by (simp add: diamond_def graph_eval)

lemma diamond_order: "iteration_order (allValues (build diamond)) [1, 2, 3, 4]"
  by (auto simp: iteration_order_def allValues_build identities_def diamond_nodes)

lemma diamond_order': "iteration_order (allValues (build diamond)) [4, 3, 2, 1]"
  by (auto simp: iteration_order_def allValues_build identities_def diamond_nodes)

lemma diamond_sort:
  "SortByLayers [1, 2, 3, 4] [4, 3, 2, 1] diamond =
     \<lparr>ret_layers = [[1], [2, 3], [4]], ret_err = None, graph_after = diamond\<rparr>"
  by (simp add: diamond_def graph_eval build_eval sort_eval)

lemma diamond_sort':
  "SortByLayers [4, 3, 2, 1] [1, 2, 3, 4] diamond =
     \<lparr>ret_layers = [[1], [2, 3], [4]], ret_err = None, graph_after = diamond\<rparr>"
  by (simp add: diamond_def graph_eval build_eval sort_eval)

subsection \<open>Ordering\<close>

lemma readded_nodes:
  "nodes readded = [\<lparr>val = 1, deps = [2]\<rparr>, \<lparr>val = 1, deps = []\<rparr>]"
  by (simp add: readded_def graph_eval)

lemma readded_sort:
  "SortByLayers [1, 2] [1, 2] readded =
     \<lparr>ret_layers = [[1, 2]], ret_err = None, graph_after = readded\<rparr>"
  "SortByLayers [2, 1] [2, 1] readded =
     \<lparr>ret_layers = [[2, 1]], ret_err = None, graph_after = readded\<rparr>"
  by (simp_all add: readded_def graph_eval build_eval sort_eval)

text \<open>
  Claim C1: when SortByLayers succeeds, the prerequisite of every recorded dependency edge
  lies in a layer of strictly smaller index than the dependent. The code breaks this, and
  the comment on \<^verbatim>\<open>node\<close> with it, after \<^verbatim>\<open>AddNode(1, [2]); AddNode(1, [])\<close>: the assignment
  \<^verbatim>\<open>dependsOn[node.value] = node.deps\<close> drops the list of the first node, while
  \<^verbatim>\<open>dependedOnBy\<close> and \<^verbatim>\<open>allValues\<close> keep it. Under either order of the map iteration the
  call succeeds and returns 1 and its prerequisite 2 in the same layer.
\<close>

theorem SortByLayers_ordering_broken:
  "nodes readded = [\<lparr>val = 1, deps = [2]\<rparr>, \<lparr>val = 1, deps = []\<rparr>] \<and>
   edge readded 1 2 \<and>
   iteration_order (allValues (build readded)) [1, 2] \<and>
   iteration_order (allValues (build readded)) [2, 1] \<and>
   SortByLayers [1, 2] [1, 2] readded =
     \<lparr>ret_layers = [[1, 2]], ret_err = None, graph_after = readded\<rparr> \<and>
   SortByLayers [2, 1] [2, 1] readded =
     \<lparr>ret_layers = [[2, 1]], ret_err = None, graph_after = readded\<rparr> \<and>
   \<not> strictly_earlier [[1, 2]] 2 (1::int) \<and>
   \<not> strictly_earlier [[2, 1]] 2 (1::int)"
proof -
  have o: "iteration_order (allValues (build readded)) [1, 2]"
    "iteration_order (allValues (build readded)) [2, 1]"
    by (auto simp: iteration_order_def allValues_build identities_def readded_nodes)
  have e: "edge readded 1 2"
    by (simp add: edge_def readded_nodes)
  have n: "\<not> strictly_earlier [[1, 2]] 2 (1::int)" "\<not> strictly_earlier [[2, 1]] 2 (1::int)"
    by (simp_all add: strictly_earlier_def)
  from readded_nodes e o readded_sort n show ?thesis by blast
qed

text \<open>On a graph in which no identity is added twice, every recorded edge is ordered.\<close>

lemma ordering_distinct_values:
  assumes "iteration_order (allValues (build g)) ks1"
    and "iteration_order (allValues (build g)) ks2"
    and "ret_err (SortByLayers ks1 ks2 g) = None"
    and "distinct (map val (nodes g))" and "edge g d p"
  shows "strictly_earlier (ret_layers (SortByLayers ks1 ks2 g)) p d"
proof -
  from assms(4,5) have "stored_dep g d p" by (simp add: distinct_vals_edge)
  with assms(1-3) show ?thesis by (rule stored_dep_earlier)
qed

subsection \<open>Coverage\<close>

text \<open>
  Claim C2. When SortByLayers succeeds, the concatenation of the returned layers has no
  duplicates and holds exactly the identities of the graph: the values of the added nodes
  and their dependencies.
\<close>

theorem SortByLayers_coverage:
  assumes "iteration_order (allValues (build g)) ks1"
    and "iteration_order (allValues (build g)) ks2"
    and "ret_err (SortByLayers ks1 ks2 g) = None"
  shows "distinct (concat (ret_layers (SortByLayers ks1 ks2 g))) \<and>
         set (concat (ret_layers (SortByLayers ks1 ks2 g))) = identities g"
proof -
  from final_inv[OF assms(1)]
  have "final_visited g ks1 = set (concat (final_layers g ks1))"
    and "distinct (concat (final_layers g ks1))"
    by (auto simp: loop_inv_def inv_basic_def)
  with success_all_visited[OF assms] success_layers[OF assms(3)] show ?thesis
    by simp
qed

theorem SortByLayers_coverage_witness:
  "iteration_order (allValues (build diamond)) [4, 3, 2, 1] \<and>
   iteration_order (allValues (build diamond)) [1, 2, 3, 4] \<and>
   ret_err (SortByLayers [4, 3, 2, 1] [1, 2, 3, 4] diamond) = None \<and>
   distinct (concat (ret_layers (SortByLayers [4, 3, 2, 1] [1, 2, 3, 4] diamond))) \<and>
   set (concat (ret_layers (SortByLayers [4, 3, 2, 1] [1, 2, 3, 4] diamond))) = {1, 2, 3, 4} \<and>
   identities diamond = {1, 2, 3, 4}"
proof -
  have ok: "ret_err (SortByLayers [4, 3, 2, 1] [1, 2, 3, 4] diamond) = None"
    by (simp add: diamond_sort')
  have ids: "identities diamond = {1, 2, 3, 4}"
    by (auto simp: identities_def diamond_nodes)
  from SortByLayers_coverage[OF diamond_order' diamond_order ok] ids diamond_order diamond_order' ok
  show ?thesis by simp
qed

subsection \<open>Maximality\<close>

text \<open>
  Claim C5. When SortByLayers succeeds, every identity of a layer \<open>i > 0\<close> has one of its
  declared dependencies in layer \<open>i - 1\<close>: a recorded edge, and one of the list that
  \<^verbatim>\<open>dependsOn\<close> holds for the identity, so that the identity could not have been placed in
  layer \<open>i - 1\<close> or before.
\<close>

theorem SortByLayers_maximal:
  assumes "iteration_order (allValues (build g)) ks1"
    and "iteration_order (allValues (build g)) ks2"
    and "ret_err (SortByLayers ks1 ks2 g) = None"
    and "i < length (ret_layers (SortByLayers ks1 ks2 g))" and "0 < i"
    and "x \<in> set (ret_layers (SortByLayers ks1 ks2 g) ! i)"
  shows "\<exists>p. p \<in> set (ret_layers (SortByLayers ks1 ks2 g) ! (i - 1)) \<and>
             stored_dep g x p \<and> edge g x p"
proof -
  let ?L = "final_layers g ks1"
  from success_layers[OF assms(3)] have L: "ret_layers (SortByLayers ks1 ks2 g) = ?L" .
  from final_inv[OF assms(1)] have t: "inv_tight g ?L []"
    by (simp add: loop_inv_def)
  from assms(4-6) have "i < length ?L" "0 < i" "x \<in> set (?L ! i)"
    by (simp_all add: L)
  with t obtain p where p: "p \<in> set (lookup (dependsOn (build g)) x)" "p \<in> set (?L ! (i - 1))"
    unfolding inv_tight_def by blast
  from p(1) have sd: "stored_dep g x p" by (simp add: stored_dep_def)
  from p(1) have "edge g x p"
    by (cases "dependsOn (build g) x") (auto simp: lookup_def intro: dependsOn_edge)
  with p(2) sd show ?thesis unfolding L by blast
qed

text \<open>The theorem at identity 4 of the diamond, in layer 2.\<close>

theorem SortByLayers_maximal_witness:
  "iteration_order (allValues (build diamond)) [1, 2, 3, 4] \<and>
   iteration_order (allValues (build diamond)) [4, 3, 2, 1] \<and>
   ret_err (SortByLayers [1, 2, 3, 4] [4, 3, 2, 1] diamond) = None \<and>
   (2::nat) < length (ret_layers (SortByLayers [1, 2, 3, 4] [4, 3, 2, 1] diamond)) \<and>
   4 \<in> set (ret_layers (SortByLayers [1, 2, 3, 4] [4, 3, 2, 1] diamond) ! 2) \<and>
   (\<exists>p. p \<in> set (ret_layers (SortByLayers [1, 2, 3, 4] [4, 3, 2, 1] diamond) ! (2 - 1)) \<and>
        stored_dep diamond 4 p \<and> edge diamond 4 p)"
proof -
  have ok: "ret_err (SortByLayers [1, 2, 3, 4] [4, 3, 2, 1] diamond) = None"
    and len: "(2::nat) < length (ret_layers (SortByLayers [1, 2, 3, 4] [4, 3, 2, 1] diamond))"
    and mem: "4 \<in> set (ret_layers (SortByLayers [1, 2, 3, 4] [4, 3, 2, 1] diamond) ! 2)"
    by (simp_all add: diamond_sort)
  have pos: "(0::nat) < 2" by simp
  from SortByLayers_maximal[OF diamond_order diamond_order' ok len pos mem]
    diamond_order diamond_order' ok len mem
  show ?thesis by blast
qed

subsection \<open>No empty layer\<close>

lemma layers_loop_nonempty:
  "[] \<notin> set r \<Longrightarrow> [] \<notin> set (fst (layers_loop g r V c))"
  by (rule layers_loop_rule[where P = "\<lambda>r V c. [] \<notin> set r"]) auto

text \<open>
  Claim C10. No layer that SortByLayers returns is empty, and sorting the empty graph
  returns no layer and no error.
\<close>

theorem SortByLayers_no_empty_layer:
  "[] \<notin> set (ret_layers (SortByLayers ks1 ks2 g)) \<and>
   (iteration_order (allValues (build empty_graph)) ks1 \<and>
    iteration_order (allValues (build empty_graph)) ks2 \<longrightarrow>
    SortByLayers ks1 ks2 empty_graph =
      \<lparr>ret_layers = [], ret_err = None, graph_after = empty_graph\<rparr>)"
proof (intro conjI impI)
  have "[] \<notin> set (final_layers g ks1)"
    unfolding final_layers_def by (rule layers_loop_nonempty) simp
  then show "[] \<notin> set (ret_layers (SortByLayers ks1 ks2 g))"
    by (simp add: SortByLayers_unfold)
next
  assume "iteration_order (allValues (build empty_graph)) ks1 \<and>
          iteration_order (allValues (build empty_graph)) ks2"
  then have "ks1 = []" "ks2 = []"
    by (simp_all add: iteration_order_def allValues_build identities_def empty_graph_def)
  then show "SortByLayers ks1 ks2 empty_graph =
      \<lparr>ret_layers = [], ret_err = None, graph_after = empty_graph\<rparr>"
    by (simp add: SortByLayers_def first_layer_def layers_loop.simps)
qed

text \<open>The theorem at the empty graph and at the diamond.\<close>

theorem SortByLayers_no_empty_layer_witness:
  "iteration_order (allValues (build (empty_graph :: int Graph))) [] \<and>
   SortByLayers [] [] (empty_graph :: int Graph) =
      \<lparr>ret_layers = [], ret_err = None, graph_after = empty_graph\<rparr> \<and>
   [] \<notin> set (ret_layers (SortByLayers [1, 2, 3, 4] [4, 3, 2, 1] diamond))"
proof -
  have o: "iteration_order (allValues (build (empty_graph :: int Graph))) []"
    by (simp add: iteration_order_def allValues_build identities_def empty_graph_def)
  with SortByLayers_no_empty_layer[of "[]" "[]" "empty_graph :: int Graph"]
    SortByLayers_no_empty_layer[of "[1, 2, 3, 4]" "[4, 3, 2, 1]" diamond]
  show ?thesis by blast
qed

subsection \<open>When the error is returned\<close>

text \<open>
  Claim C6. SortByLayers returns an error exactly when, after the layer loop, some identity
  that was added with a non-empty dependency list is not visited (equivalently, some
  unvisited identity has a non-empty list in \<^verbatim>\<open>dependsOn\<close>); the error is then
  \<^verbatim>\<open>ErrCyclicDependency\<close> and the returned layers are nil.
\<close>

theorem SortByLayers_error_iff:
  assumes "iteration_order (allValues (build g)) ks1"
    and "iteration_order (allValues (build g)) ks2"
  shows "(ret_err (SortByLayers ks1 ks2 g) \<noteq> None \<longleftrightarrow>
            (\<exists>n \<in> set (nodes g). deps n \<noteq> [] \<and> val n \<notin> final_visited g ks1)) \<and>
         (ret_err (SortByLayers ks1 ks2 g) \<noteq> None \<longleftrightarrow>
            (\<exists>v ds. dependsOn (build g) v = Some ds \<and> ds \<noteq> [] \<and> v \<notin> final_visited g ks1)) \<and>
         (ret_err (SortByLayers ks1 ks2 g) \<noteq> None \<longrightarrow>
            ret_err (SortByLayers ks1 ks2 g) = Some ErrCyclicDependency \<and>
            ret_layers (SortByLayers ks1 ks2 g) = [])"
proof -
  let ?V = "final_visited g ks1"
  from final_inv[OF assms(1)] have f: "inv_full g ?V []"
    by (simp add: loop_inv_def)
  from assms(2) have s2: "set ks2 = identities g"
    by (simp add: iteration_order_def allValues_build)
  have err: "ret_err (SortByLayers ks1 ks2 g) \<noteq> None \<longleftrightarrow> has_unresolved (build g) ?V ks2"
    by (simp add: SortByLayers_unfold)
  have A: "has_unresolved (build g) ?V ks2 \<longleftrightarrow>
             (\<exists>v ds. dependsOn (build g) v = Some ds \<and> ds \<noteq> [] \<and> v \<notin> ?V)"
  proof
    assume "has_unresolved (build g) ?V ks2"
    then show "\<exists>v ds. dependsOn (build g) v = Some ds \<and> ds \<noteq> [] \<and> v \<notin> ?V"
      unfolding has_unresolved_iff by blast
  next
    assume "\<exists>v ds. dependsOn (build g) v = Some ds \<and> ds \<noteq> [] \<and> v \<notin> ?V"
    then obtain v ds where v: "dependsOn (build g) v = Some ds" "ds \<noteq> []" "v \<notin> ?V"
      by blast
    from v(1) have "v \<in> identities g"
      by (auto dest!: dependsOn_build_Some simp: identities_def)
    with s2 v show "has_unresolved (build g) ?V ks2"
      unfolding has_unresolved_iff by blast
  qed
  have B: "(\<exists>v ds. dependsOn (build g) v = Some ds \<and> ds \<noteq> [] \<and> v \<notin> ?V) \<longleftrightarrow>
           (\<exists>n \<in> set (nodes g). deps n \<noteq> [] \<and> val n \<notin> ?V)"
  proof
    assume "\<exists>v ds. dependsOn (build g) v = Some ds \<and> ds \<noteq> [] \<and> v \<notin> ?V"
    then obtain v ds where v: "dependsOn (build g) v = Some ds" "ds \<noteq> []" "v \<notin> ?V"
      by blast
    from dependsOn_build_Some[OF v(1)] v(2,3)
    show "\<exists>n \<in> set (nodes g). deps n \<noteq> [] \<and> val n \<notin> ?V" by blast
  next
    assume "\<exists>n \<in> set (nodes g). deps n \<noteq> [] \<and> val n \<notin> ?V"
    then obtain n where n: "n \<in> set (nodes g)" "val n \<notin> ?V" by blast
    then have "dependsOn (build g) (val n) \<noteq> None"
      by (simp add: dependsOn_build_None)
    then obtain ds where ds: "dependsOn (build g) (val n) = Some ds" by blast
    have "ds \<noteq> []"
    proof
      assume "ds = []"
      with f ds have "val n \<in> ?V" by (simp add: inv_full_def)
      with n(2) show False by simp
    qed
    with ds n(2) show "\<exists>v ds. dependsOn (build g) v = Some ds \<and> ds \<noteq> [] \<and> v \<notin> ?V"
      by blast
  qed
  have C: "ret_err (SortByLayers ks1 ks2 g) \<noteq> None \<longrightarrow>
            ret_err (SortByLayers ks1 ks2 g) = Some ErrCyclicDependency \<and>
            ret_layers (SortByLayers ks1 ks2 g) = []"
    by (simp add: SortByLayers_unfold)
  from err A B C show ?thesis by blast
qed

lemma three_cycle_nodes:
  "nodes three_cycle =
     [\<lparr>val = 1, deps = [3]\<rparr>, \<lparr>val = 2, deps = [1]\<rparr>, \<lparr>val = 3, deps = [2]\<rparr>]"
  by (simp add: three_cycle_def graph_eval)

lemma three_cycle_order: "iteration_order (allValues (build three_cycle)) [1, 2, 3]"
  by (auto simp: iteration_order_def allValues_build identities_def three_cycle_nodes)

lemma three_cycle_order': "iteration_order (allValues (build three_cycle)) [3, 1, 2]"
  by (auto simp: iteration_order_def allValues_build identities_def three_cycle_nodes)

lemma three_cycle_sort:
  "SortByLayers [1, 2, 3] [3, 1, 2] three_cycle =
     \<lparr>ret_layers = [], ret_err = Some ErrCyclicDependency, graph_after = three_cycle\<rparr>"
  by (simp add: three_cycle_def graph_eval build_eval sort_eval)

text \<open>The theorem at the cyclic graph of the tests.\<close>

theorem SortByLayers_error_iff_witness:
  "iteration_order (allValues (build three_cycle)) [1, 2, 3] \<and>
   iteration_order (allValues (build three_cycle)) [3, 1, 2] \<and>
   ret_err (SortByLayers [1, 2, 3] [3, 1, 2] three_cycle) = Some ErrCyclicDependency \<and>
   ret_layers (SortByLayers [1, 2, 3] [3, 1, 2] three_cycle) = [] \<and>
   (\<exists>n \<in> set (nodes three_cycle). deps n \<noteq> [] \<and> val n \<notin> final_visited three_cycle [1, 2, 3])"
proof -
  have e: "ret_err (SortByLayers [1, 2, 3] [3, 1, 2] three_cycle) \<noteq> None"
    by (simp add: three_cycle_sort)
  with SortByLayers_error_iff[OF three_cycle_order three_cycle_order']
    three_cycle_order three_cycle_order'
  show ?thesis by blast
qed

subsection \<open>Cycle detection\<close>

lemma chain_descends:
  assumes ord: "\<forall>j x p. j < length L \<and> x \<in> set (L ! j) \<and> stored_dep g x p \<longrightarrow>
                  (\<exists>i < j. p \<in> set (L ! i))"
  shows "successively (stored_dep g) (x # ys) \<Longrightarrow> ys \<noteq> [] \<Longrightarrow> j < length L \<Longrightarrow>
         x \<in> set (L ! j) \<Longrightarrow> \<exists>i < j. last ys \<in> set (L ! i)"
proof (induction ys arbitrary: x j)
  case Nil
  then show ?case by simp
next
  case (Cons y ys)
  from Cons.prems(1) have xy: "stored_dep g x y" and rest: "successively (stored_dep g) (y # ys)"
    by simp_all
  from ord Cons.prems(3,4) xy obtain i where i: "i < j" "y \<in> set (L ! i)" by blast
  show ?case
  proof (cases "ys = []")
    case True
    with i show ?thesis by auto
  next
    case False
    from i(1) Cons.prems(3) have "i < length L" by simp
    from Cons.IH[OF rest False this i(2)] obtain i' where "i' < i" "last ys \<in> set (L ! i')"
      by blast
    with i(1) False show ?thesis by (auto intro: less_trans)
  qed
qed

lemma no_cycle_in_layers:
  assumes ord: "\<forall>j x p. j < length L \<and> x \<in> set (L ! j) \<and> stored_dep g x p \<longrightarrow>
                  (\<exists>i < j. p \<in> set (L ! i))"
  shows "j < length L \<Longrightarrow> x \<in> set (L ! j) \<Longrightarrow>
         \<not> successively (stored_dep g) (x # xs @ [x])"
proof (induction j rule: less_induct)
  case (less j)
  show ?case
  proof
    assume cyc: "successively (stored_dep g) (x # xs @ [x])"
    have "xs @ [x] \<noteq> []" by simp
    from chain_descends[OF ord cyc this less.prems]
    obtain i where i: "i < j" "x \<in> set (L ! i)" by auto
    with less.prems(1) have "i < length L" by simp
    from less.IH[OF i(1) this i(2)] cyc show False by blast
  qed
qed

lemma stored_cycle_error:
  assumes o1: "iteration_order (allValues (build g)) ks1"
    and o2: "iteration_order (allValues (build g)) ks2"
    and cyc: "successively (stored_dep g) (x # xs @ [x])"
  shows "SortByLayers ks1 ks2 g =
           \<lparr>ret_layers = [], ret_err = Some ErrCyclicDependency, graph_after = g\<rparr>"
proof -
  let ?L = "final_layers g ks1" and ?V = "final_visited g ks1"
  from final_inv[OF o1] have V: "?V = set (concat ?L)" and o: "inv_order g ?L ?V []"
    by (auto simp: loop_inv_def inv_basic_def)
  have ord: "\<forall>j x p. j < length ?L \<and> x \<in> set (?L ! j) \<and> stored_dep g x p \<longrightarrow>
                  (\<exists>i < j. p \<in> set (?L ! i))"
    using o unfolding inv_order_def stored_dep_def by blast
  have nv: "x \<notin> ?V"
  proof
    assume "x \<in> ?V"
    then obtain j where "j < length ?L" "x \<in> set (?L ! j)"
      unfolding V in_concat_nth by blast
    from no_cycle_in_layers[OF ord this] cyc show False by blast
  qed
  from cyc have "stored_dep g x (hd (xs @ [x]))"
    by (cases xs) simp_all
  then obtain ds where ds: "dependsOn (build g) x = Some ds" "ds \<noteq> []"
    by (cases "dependsOn (build g) x") (fastforce simp: stored_dep_def lookup_def)+
  then have "x \<in> identities g"
    by (auto dest!: dependsOn_build_Some simp: identities_def)
  with o2 have "x \<in> set ks2"
    by (simp add: iteration_order_def allValues_build)
  with nv ds have "has_unresolved (build g) ?V ks2"
    unfolding has_unresolved_iff by blast
  then show ?thesis by (simp add: SortByLayers_unfold)
qed

text \<open>On a graph in which no identity is added twice, every cycle of recorded edges is found.\<close>

lemma cycle_error_distinct_values:
  assumes "iteration_order (allValues (build g)) ks1"
    and "iteration_order (allValues (build g)) ks2"
    and "distinct (map val (nodes g))"
    and "successively (edge g) (x # xs @ [x])"
  shows "SortByLayers ks1 ks2 g =
           \<lparr>ret_layers = [], ret_err = Some ErrCyclicDependency, graph_after = g\<rparr>"
proof -
  from assms(3) have "edge g = stored_dep g"
    by (intro ext) (simp add: distinct_vals_edge)
  with assms(4) have "successively (stored_dep g) (x # xs @ [x])" by simp
  with assms(1,2) show ?thesis by (rule stored_cycle_error)
qed

lemma self_cleared_nodes:
  "nodes self_cleared = [\<lparr>val = 1, deps = [1]\<rparr>, \<lparr>val = 1, deps = []\<rparr>]"
  by (simp add: self_cleared_def graph_eval)

lemma self_cleared_sort:
  "SortByLayers [1] [1] self_cleared =
     \<lparr>ret_layers = [[1]], ret_err = None, graph_after = self_cleared\<rparr>"
  by (simp add: self_cleared_def graph_eval build_eval sort_eval)

text \<open>
  Claim C3: a graph with a cycle among its recorded dependency edges, a node that lists
  itself included, makes SortByLayers return \<^verbatim>\<open>ErrCyclicDependency\<close> and no layers. The code
  breaks this, and the comment on \<^verbatim>\<open>ErrCyclicDependency\<close> with it, after
  \<^verbatim>\<open>AddNode(1, [1]); AddNode(1, [])\<close>: the recorded edges hold the cycle 1, 1, the
  assignment \<^verbatim>\<open>dependsOn[node.value] = node.deps\<close> drops the list that closes it, and the
  call returns the layer \<open>[1]\<close> and no error.
\<close>

theorem SortByLayers_cycle_missed:
  "nodes self_cleared = [\<lparr>val = 1, deps = [1]\<rparr>, \<lparr>val = 1, deps = []\<rparr>] \<and>
   successively (edge self_cleared) (1 # [] @ [1]) \<and>
   iteration_order (allValues (build self_cleared)) [1] \<and>
   SortByLayers [1] [1] self_cleared =
     \<lparr>ret_layers = [[1]], ret_err = None, graph_after = self_cleared\<rparr>"
proof -
  have "iteration_order (allValues (build self_cleared)) [1]"
    by (auto simp: iteration_order_def allValues_build identities_def self_cleared_nodes)
  moreover have "successively (edge self_cleared) (1 # [] @ [1])"
    by (simp add: edge_def self_cleared_nodes)
  ultimately show ?thesis using self_cleared_nodes self_cleared_sort by blast
qed

subsection \<open>An identity added more than once\<close>

lemma readded_later_nodes:
  "nodes readded_later =
     [\<lparr>val = 1, deps = [2]\<rparr>, \<lparr>val = 1, deps = [3]\<rparr>, \<lparr>val = 2, deps = [3]\<rparr>]"
  by (simp add: readded_later_def graph_eval)

lemma readded_later_sort:
  "SortByLayers [1, 2, 3] [1, 2, 3] readded_later =
     \<lparr>ret_layers = [[3], [1, 2]], ret_err = None, graph_after = readded_later\<rparr>"
  "SortByLayers [3, 2, 1] [2, 3, 1] readded_later =
     \<lparr>ret_layers = [[3], [1, 2]], ret_err = None, graph_after = readded_later\<rparr>"
  by (simp_all add: readded_later_def graph_eval build_eval sort_eval)

text \<open>
  Claim C4: when an identity is added more than once with different dependency lists, both
  entries are retained and both lists are enforced by SortByLayers; the later list does
  not replace the earlier one. The code breaks this after
  \<^verbatim>\<open>AddNode(1, [2]); AddNode(1, [3]); AddNode(2, [3])\<close>: the node list keeps both entries of
  1, but the assignment \<^verbatim>\<open>dependsOn[node.value] = node.deps\<close> leaves only the list \<open>[3]\<close>
  for it, and the call succeeds with 1 and its prerequisite 2 in the same layer.
\<close>

theorem AddNode_twice_first_list_dropped:
  "nodes readded_later =
     [\<lparr>val = 1, deps = [2]\<rparr>, \<lparr>val = 1, deps = [3]\<rparr>, \<lparr>val = 2, deps = [3]\<rparr>] \<and>
   edge readded_later 1 2 \<and>
   dependsOn (build readded_later) 1 = Some [3] \<and>
   iteration_order (allValues (build readded_later)) [1, 2, 3] \<and>
   iteration_order (allValues (build readded_later)) [3, 2, 1] \<and>
   iteration_order (allValues (build readded_later)) [2, 3, 1] \<and>
   SortByLayers [1, 2, 3] [1, 2, 3] readded_later =
     \<lparr>ret_layers = [[3], [1, 2]], ret_err = None, graph_after = readded_later\<rparr> \<and>
   SortByLayers [3, 2, 1] [2, 3, 1] readded_later =
     \<lparr>ret_layers = [[3], [1, 2]], ret_err = None, graph_after = readded_later\<rparr> \<and>
   \<not> strictly_earlier [[3], [1, 2]] 2 (1::int)"
proof -
  have o: "iteration_order (allValues (build readded_later)) [1, 2, 3]"
    "iteration_order (allValues (build readded_later)) [3, 2, 1]"
    "iteration_order (allValues (build readded_later)) [2, 3, 1]"
    by (auto simp: iteration_order_def allValues_build identities_def readded_later_nodes)
  have e: "edge readded_later 1 2"
    by (simp add: edge_def readded_later_nodes)
  have d: "dependsOn (build readded_later) 1 = Some [3]"
    by (simp add: readded_later_def graph_eval build_eval)
  have n: "\<not> strictly_earlier [[3], [1, 2]] 2 (1::int)"
    by (simp add: strictly_earlier_def)
  from readded_later_nodes e d o readded_later_sort n show ?thesis by blast
qed

subsection \<open>The first layer\<close>

lemma no_deps_identities:
  "{v \<in> identities g. no_deps (build g) v} =
     {v \<in> identities g. v \<notin> val ` set (nodes g)} \<union> {v. dependsOn (build g) v = Some []}"
proof (intro equalityI subsetI)
  fix v assume "v \<in> {v \<in> identities g. no_deps (build g) v}"
  then have v: "v \<in> identities g" "no_deps (build g) v" by simp_all
  show "v \<in> {v \<in> identities g. v \<notin> val ` set (nodes g)} \<union> {v. dependsOn (build g) v = Some []}"
  proof (cases "dependsOn (build g) v")
    case None
    then have "v \<notin> val ` set (nodes g)" by (simp add: dependsOn_build_None)
    with v(1) show ?thesis by simp
  next
    case (Some ds)
    with v(2) have "ds = []" by (simp add: no_deps_def)
    with Some show ?thesis by simp
  qed
next
  fix v
  assume "v \<in> {v \<in> identities g. v \<notin> val ` set (nodes g)} \<union> {v. dependsOn (build g) v = Some []}"
  then consider "v \<in> identities g" "v \<notin> val ` set (nodes g)" | "dependsOn (build g) v = Some []"
    by blast
  then show "v \<in> {v \<in> identities g. no_deps (build g) v}"
  proof cases
    case 1
    from 1(2) have "dependsOn (build g) v = None" by (simp add: dependsOn_build_None)
    with 1(1) show ?thesis by (simp add: no_deps_def)
  next
    case 2
    then have "v \<in> identities g"
      by (auto dest!: dependsOn_build_Some simp: identities_def)
    with 2 show ?thesis by (simp add: no_deps_def)
  qed
qed

lemma distinct_vals_empty_entry:
  assumes "distinct (map val (nodes g))"
  shows "{v. dependsOn (build g) v = Some []} = {val n | n. n \<in> set (nodes g) \<and> deps n = []}"
proof (intro equalityI subsetI)
  fix v assume "v \<in> {v. dependsOn (build g) v = Some []}"
  then have "dependsOn (build g) v = Some []" by simp
  from dependsOn_build_Some[OF this]
  show "v \<in> {val n | n. n \<in> set (nodes g) \<and> deps n = []}" by blast
next
  fix v assume "v \<in> {val n | n. n \<in> set (nodes g) \<and> deps n = []}"
  then obtain n where n: "n \<in> set (nodes g)" "deps n = []" "v = val n" by blast
  from distinct_vals_dependsOn[OF assms n(1)] n(2,3)
  show "v \<in> {v. dependsOn (build g) v = Some []}" by simp
qed

lemma val_in_identities: "v \<in> val ` set (nodes g) \<Longrightarrow> v \<in> identities g"
  by (auto simp: identities_def)

lemma first_layer_lower:
  "{v \<in> identities g. v \<notin> val ` set (nodes g)} \<union>
   {v \<in> val ` set (nodes g). \<forall>n \<in> set (nodes g). val n = v \<longrightarrow> deps n = []}
     \<subseteq> {v \<in> identities g. no_deps (build g) v}"
proof
  fix v
  assume "v \<in> {v \<in> identities g. v \<notin> val ` set (nodes g)} \<union>
   {v \<in> val ` set (nodes g). \<forall>n \<in> set (nodes g). val n = v \<longrightarrow> deps n = []}"
  then consider "v \<in> identities g" "v \<notin> val ` set (nodes g)"
    | "v \<in> val ` set (nodes g)" "\<forall>n \<in> set (nodes g). val n = v \<longrightarrow> deps n = []"
    by blast
  then show "v \<in> {v \<in> identities g. no_deps (build g) v}"
  proof cases
    case 1
    from 1(2) have "dependsOn (build g) v = None" by (simp add: dependsOn_build_None)
    with 1(1) show ?thesis by (simp add: no_deps_def)
  next
    case 2
    from 2(1) have "dependsOn (build g) v \<noteq> None" by (simp add: dependsOn_build_None)
    then obtain ds where ds: "dependsOn (build g) v = Some ds" by blast
    from dependsOn_build_Some[OF ds] 2(2) have "ds = []" by blast
    with ds val_in_identities[OF 2(1)] show ?thesis by (simp add: no_deps_def)
  qed
qed

lemma first_layer_upper:
  "{v \<in> identities g. no_deps (build g) v}
     \<subseteq> {v \<in> identities g. v \<notin> val ` set (nodes g)} \<union>
        {val n | n. n \<in> set (nodes g) \<and> deps n = []}"
proof
  fix v assume "v \<in> {v \<in> identities g. no_deps (build g) v}"
  then have "v \<in> {v \<in> identities g. v \<notin> val ` set (nodes g)} \<union>
                {v. dependsOn (build g) v = Some []}"
    by (simp only: no_deps_identities)
  then consider "v \<in> {v \<in> identities g. v \<notin> val ` set (nodes g)}"
    | "dependsOn (build g) v = Some []" by blast
  then show "v \<in> {v \<in> identities g. v \<notin> val ` set (nodes g)} \<union>
        {val n | n. n \<in> set (nodes g) \<and> deps n = []}"
  proof cases
    case 1 then show ?thesis by blast
  next
    case 2
    from dependsOn_build_Some[OF 2] obtain n where "n \<in> set (nodes g)" "val n = v" "deps n = []"
      by blast
    then have "v \<in> {val n | n. n \<in> set (nodes g) \<and> deps n = []}" by force
    then show ?thesis by simp
  qed
qed

lemma first_layer_distinct_values:
  assumes "distinct (map val (nodes g))"
  shows "{v \<in> identities g. no_deps (build g) v} =
           {v \<in> identities g. v \<notin> val ` set (nodes g)} \<union>
           {val n | n. n \<in> set (nodes g) \<and> deps n = []}"
  unfolding no_deps_identities distinct_vals_empty_entry[OF assms] ..

lemma set_first_layer:
  assumes "iteration_order (allValues (build g)) ks"
  shows "set (first_layer (build g) ks) = {v \<in> identities g. no_deps (build g) v}"
  using assms by (auto simp: iteration_order_def allValues_build first_layer_def)

lemma distinct_singleton:
  assumes "distinct xs" and "set xs = {y}"
  shows "xs = [y]"
proof -
  from assms have "length xs = 1"
    using distinct_card[of xs] by simp
  then obtain a where "xs = [a]"
    by (cases xs) auto
  with assms(2) show ?thesis by simp
qed

lemma implicit_sort:
  assumes ne: "X \<noteq> Y"
    and o1: "iteration_order (allValues (build (AddNode empty_graph X [Y]))) ka"
    and o2: "iteration_order (allValues (build (AddNode empty_graph X [Y]))) kb"
  shows "SortByLayers ka kb (AddNode empty_graph X [Y]) =
           \<lparr>ret_layers = [[Y], [X]], ret_err = None, graph_after = AddNode empty_graph X [Y]\<rparr>"
proof -
  let ?g = "AddNode empty_graph X [Y]"
  from ne have ne': "Y \<noteq> X" by simp
  have ids: "identities ?g = {X, Y}"
    by (simp add: identities_def graph_eval)
  have nd: "no_deps (build ?g) Y" "\<not> no_deps (build ?g) X"
    using ne ne' by (simp_all add: no_deps_def graph_eval build_eval)
  from o1 have "distinct (first_layer (build ?g) ka)"
    by (simp add: iteration_order_def first_layer_def)
  moreover have "set (first_layer (build ?g) ka) = {Y}"
    unfolding set_first_layer[OF o1] ids using nd by auto
  ultimately have fl: "first_layer (build ?g) ka = [Y]"
    by (rule distinct_singleton)
  have n1: "next_layer (build ?g) {Y} [Y] = [X]"
    using ne ne' by (simp add: graph_eval build_eval next_layer_def scan_layer_def
        consider_dependent_def allDepsVisited_def)
  have n2: "next_layer (build ?g) (insert X {Y}) [X] = []"
    using ne ne' by (simp add: graph_eval build_eval next_layer_def scan_layer_def)
  have loop: "layers_loop ?g [] {} [Y] = ([[Y], [X]], {X, Y})"
    by (simp add: layers_loop.simps[of ?g] mark_visited_def Let_def n1 n2)
  from o2 have "set kb = {X, Y}"
    by (simp add: iteration_order_def allValues_build ids)
  then have "\<not> has_unresolved (build ?g) {X, Y} kb"
    unfolding has_unresolved_iff by blast
  with fl loop show ?thesis
    by (simp add: SortByLayers_def Let_def)
qed

text \<open>
  Claim C7, as amended. The first layer holds exactly the identities whose \<^verbatim>\<open>dependsOn\<close>
  entry is absent or empty. Every identity that is only a dependency of others and every
  identity added with empty dependency lists only is in it, and each of its members is
  only a dependency of others or was added with an empty list; an identity that was also
  added with a non-empty list need not be in it. When no identity is added twice, it holds
  exactly the identities added with an empty list and those that are only dependencies.
  When SortByLayers succeeds this is the first layer it returns, and it returns no layer
  only if there is no such identity. Adding only X with the list [Y] yields [[Y], [X]].
\<close>

theorem SortByLayers_first_layer:
  "(iteration_order (allValues (build g)) ks1 \<longrightarrow>
      set (first_layer (build g) ks1) = {v \<in> identities g. no_deps (build g) v}) \<and>
   {v \<in> identities g. v \<notin> val ` set (nodes g)} \<union>
   {v \<in> val ` set (nodes g). \<forall>n \<in> set (nodes g). val n = v \<longrightarrow> deps n = []}
     \<subseteq> {v \<in> identities g. no_deps (build g) v} \<and>
   {v \<in> identities g. no_deps (build g) v}
     \<subseteq> {v \<in> identities g. v \<notin> val ` set (nodes g)} \<union>
        {val n | n. n \<in> set (nodes g) \<and> deps n = []} \<and>
   (distinct (map val (nodes g)) \<longrightarrow>
      {v \<in> identities g. no_deps (build g) v} =
        {v \<in> identities g. v \<notin> val ` set (nodes g)} \<union>
        {val n | n. n \<in> set (nodes g) \<and> deps n = []}) \<and>
   (iteration_order (allValues (build g)) ks1 \<and> iteration_order (allValues (build g)) ks2 \<and>
    ret_err (SortByLayers ks1 ks2 g) = None \<longrightarrow>
      (ret_layers (SortByLayers ks1 ks2 g) = [] \<longleftrightarrow>
         {v \<in> identities g. no_deps (build g) v} = {}) \<and>
      (ret_layers (SortByLayers ks1 ks2 g) \<noteq> [] \<longrightarrow>
         hd (ret_layers (SortByLayers ks1 ks2 g)) = first_layer (build g) ks1 \<and>
         set (hd (ret_layers (SortByLayers ks1 ks2 g))) =
           {v \<in> identities g. no_deps (build g) v})) \<and>
   (X \<noteq> Y \<and> iteration_order (allValues (build (AddNode empty_graph X [Y]))) ka \<and>
    iteration_order (allValues (build (AddNode empty_graph X [Y]))) kb \<longrightarrow>
      SortByLayers ka kb (AddNode empty_graph X [Y]) =
        \<lparr>ret_layers = [[Y], [X]], ret_err = None, graph_after = AddNode empty_graph X [Y]\<rparr>)"
proof (intro conjI)
  show "iteration_order (allValues (build g)) ks1 \<longrightarrow>
      set (first_layer (build g) ks1) = {v \<in> identities g. no_deps (build g) v}"
    by (simp add: set_first_layer)
next
  show "{v \<in> identities g. v \<notin> val ` set (nodes g)} \<union>
   {v \<in> val ` set (nodes g). \<forall>n \<in> set (nodes g). val n = v \<longrightarrow> deps n = []}
     \<subseteq> {v \<in> identities g. no_deps (build g) v}"
    by (rule first_layer_lower)
next
  show "{v \<in> identities g. no_deps (build g) v}
     \<subseteq> {v \<in> identities g. v \<notin> val ` set (nodes g)} \<union>
        {val n | n. n \<in> set (nodes g) \<and> deps n = []}"
    by (rule first_layer_upper)
next
  show "distinct (map val (nodes g)) \<longrightarrow>
      {v \<in> identities g. no_deps (build g) v} =
        {v \<in> identities g. v \<notin> val ` set (nodes g)} \<union>
        {val n | n. n \<in> set (nodes g) \<and> deps n = []}"
    using first_layer_distinct_values[of g] by blast
next
  show "iteration_order (allValues (build g)) ks1 \<and> iteration_order (allValues (build g)) ks2 \<and>
    ret_err (SortByLayers ks1 ks2 g) = None \<longrightarrow>
      (ret_layers (SortByLayers ks1 ks2 g) = [] \<longleftrightarrow>
         {v \<in> identities g. no_deps (build g) v} = {}) \<and>
      (ret_layers (SortByLayers ks1 ks2 g) \<noteq> [] \<longrightarrow>
         hd (ret_layers (SortByLayers ks1 ks2 g)) = first_layer (build g) ks1 \<and>
         set (hd (ret_layers (SortByLayers ks1 ks2 g))) =
           {v \<in> identities g. no_deps (build g) v})"
  proof
    assume a: "iteration_order (allValues (build g)) ks1 \<and>
      iteration_order (allValues (build g)) ks2 \<and> ret_err (SortByLayers ks1 ks2 g) = None"
    let ?L = "final_layers g ks1" and ?l = "first_layer (build g) ks1"
    from a have o1: "iteration_order (allValues (build g)) ks1"
      and ok: "ret_err (SortByLayers ks1 ks2 g) = None" by simp_all
    have L: "ret_layers (SortByLayers ks1 ks2 g) = ?L" by (rule success_layers[OF ok])
    from final_inv[OF o1] have h: "hd (?L @ [[]]) = ?l" and ne: "[] \<notin> set ?L"
      by (auto simp: loop_inv_def inv_basic_def)
    note s = set_first_layer[OF o1]
    show "(ret_layers (SortByLayers ks1 ks2 g) = [] \<longleftrightarrow>
         {v \<in> identities g. no_deps (build g) v} = {}) \<and>
      (ret_layers (SortByLayers ks1 ks2 g) \<noteq> [] \<longrightarrow>
         hd (ret_layers (SortByLayers ks1 ks2 g)) = first_layer (build g) ks1 \<and>
         set (hd (ret_layers (SortByLayers ks1 ks2 g))) =
           {v \<in> identities g. no_deps (build g) v})"
    proof (cases "?L = []")
      case True
      with h have "?l = []" by simp
      with s True show ?thesis unfolding L by simp
    next
      case False
      with h have hl: "hd ?L = ?l" by simp
      from False ne have "hd ?L \<noteq> []" by (cases ?L) auto
      with hl have "set ?l \<noteq> {}" by simp
      with s hl False show ?thesis unfolding L by simp
    qed
  qed
next
  show "X \<noteq> Y \<and> iteration_order (allValues (build (AddNode empty_graph X [Y]))) ka \<and>
    iteration_order (allValues (build (AddNode empty_graph X [Y]))) kb \<longrightarrow>
      SortByLayers ka kb (AddNode empty_graph X [Y]) =
        \<lparr>ret_layers = [[Y], [X]], ret_err = None, graph_after = AddNode empty_graph X [Y]\<rparr>"
    using implicit_sort[of X Y ka kb] by blast
qed

text \<open>The theorem at the diamond, and at X = 1, Y = 2.\<close>

theorem SortByLayers_first_layer_witness:
  "iteration_order (allValues (build diamond)) [1, 2, 3, 4] \<and>
   iteration_order (allValues (build diamond)) [4, 3, 2, 1] \<and>
   ret_err (SortByLayers [1, 2, 3, 4] [4, 3, 2, 1] diamond) = None \<and>
   ret_layers (SortByLayers [1, 2, 3, 4] [4, 3, 2, 1] diamond) \<noteq> [] \<and>
   set (hd (ret_layers (SortByLayers [1, 2, 3, 4] [4, 3, 2, 1] diamond))) =
     {v \<in> identities diamond. no_deps (build diamond) v} \<and>
   distinct (map val (nodes diamond)) \<and>
   (1::int) \<noteq> 2 \<and>
   iteration_order (allValues (build (AddNode empty_graph (1::int) [2]))) [2, 1] \<and>
   iteration_order (allValues (build (AddNode empty_graph (1::int) [2]))) [1, 2] \<and>
   SortByLayers [2, 1] [1, 2] (AddNode empty_graph (1::int) [2]) =
     \<lparr>ret_layers = [[2], [1]], ret_err = None, graph_after = AddNode empty_graph 1 [2]\<rparr>"
proof -
  have ok: "ret_err (SortByLayers [1, 2, 3, 4] [4, 3, 2, 1] diamond) = None"
    and ne: "ret_layers (SortByLayers [1, 2, 3, 4] [4, 3, 2, 1] diamond) \<noteq> []"
    by (simp_all add: diamond_sort)
  have d: "(1::int) \<noteq> 2" and dv: "distinct (map val (nodes diamond))"
    by (simp_all add: diamond_nodes)
  have o1: "iteration_order (allValues (build (AddNode empty_graph (1::int) [2]))) [2, 1]"
    and o2: "iteration_order (allValues (build (AddNode empty_graph (1::int) [2]))) [1, 2]"
    by (auto simp: iteration_order_def allValues_build identities_def graph_eval)
  from SortByLayers_first_layer[of diamond "[1, 2, 3, 4]" "[4, 3, 2, 1]" 1 2 "[2, 1]" "[1, 2]"]
    diamond_order diamond_order' ok ne d dv o1 o2
  show ?thesis by blast
qed

lemma dep_given_later_nodes:
  "nodes dep_given_later = [\<lparr>val = 1, deps = []\<rparr>, \<lparr>val = 1, deps = [2]\<rparr>]"
  by (simp add: dep_given_later_def graph_eval)

lemma dep_given_later_sort:
  "SortByLayers [1, 2] [1, 2] dep_given_later =
     \<lparr>ret_layers = [[2], [1]], ret_err = None, graph_after = dep_given_later\<rparr>"
  "SortByLayers [2, 1] [2, 1] dep_given_later =
     \<lparr>ret_layers = [[2], [1]], ret_err = None, graph_after = dep_given_later\<rparr>"
  by (simp_all add: dep_given_later_def graph_eval build_eval sort_eval)

text \<open>
  Claim C7 as stated fails for an identity that is added with an empty list and added
  again with a dependency: after \<^verbatim>\<open>AddNode(1, []); AddNode(1, [2])\<close> the first layer is
  \<open>[2]\<close>, without 1, under either order of the map iteration.
\<close>

theorem SortByLayers_first_layer_counterexample:
  "nodes dep_given_later = [\<lparr>val = 1, deps = []\<rparr>, \<lparr>val = 1, deps = [2]\<rparr>] \<and>
   iteration_order (allValues (build dep_given_later)) [1, 2] \<and>
   iteration_order (allValues (build dep_given_later)) [2, 1] \<and>
   SortByLayers [1, 2] [1, 2] dep_given_later =
     \<lparr>ret_layers = [[2], [1]], ret_err = None, graph_after = dep_given_later\<rparr> \<and>
   SortByLayers [2, 1] [2, 1] dep_given_later =
     \<lparr>ret_layers = [[2], [1]], ret_err = None, graph_after = dep_given_later\<rparr> \<and>
   (1::int) \<notin> set (hd [[2], [1]])"
proof -
  have o: "iteration_order (allValues (build dep_given_later)) [1, 2]"
    "iteration_order (allValues (build dep_given_later)) [2, 1]"
    by (auto simp: iteration_order_def allValues_build identities_def dep_given_later_nodes)
  have "(1::int) \<notin> set (hd [[2], [1]])" by simp
  with dep_given_later_nodes o dep_given_later_sort show ?thesis by blast
qed

subsection \<open>Determinism of the layer sets\<close>


lemma next_layer_set_cong:
  "set c = set c' \<Longrightarrow> set (next_layer t V c) = set (next_layer t V c')"
  by (simp add: set_next_layer)

lemma layers_loop_set_eq:
  "set c = set c' \<Longrightarrow> map set r = map set r' \<Longrightarrow>
     map set (fst (layers_loop g r V c)) = map set (fst (layers_loop g r' V c')) \<and>
     snd (layers_loop g r V c) = snd (layers_loop g r' V c')"
proof (induction g r V c arbitrary: r' c' rule: layers_loop.induct)
  case (1 g result visited currentLayer)
  show ?case
  proof (cases "currentLayer = []")
    case True
    with "1.prems" have "c' = []" by simp
    with True "1.prems" show ?thesis by (simp add: layers_loop.simps)
  next
    case False
    with "1.prems" have ne': "c' \<noteq> []" by auto
    let ?V = "visited \<union> set currentLayer"
    have u1: "layers_loop g result visited currentLayer =
        layers_loop g (result @ [currentLayer]) ?V (next_layer (build g) ?V currentLayer)"
      using False by (subst layers_loop.simps) (simp add: mark_visited_eq Let_def)
    have u2: "layers_loop g r' visited c' =
        layers_loop g (r' @ [c']) ?V (next_layer (build g) ?V c')"
      using ne' "1.prems"(1) by (subst layers_loop.simps) (simp add: mark_visited_eq Let_def)
    have a: "set (next_layer (build g) ?V currentLayer) = set (next_layer (build g) ?V c')"
      using "1.prems"(1) by (rule next_layer_set_cong)
    have b: "map set (result @ [currentLayer]) = map set (r' @ [c'])"
      using "1.prems" by simp
    from False have pos: "0 < length currentLayer" by simp
    have "mark_visited currentLayer visited = ?V" by (rule mark_visited_eq)
    from "1.IH"[OF pos refl refl refl, unfolded this, OF a b]
    show ?thesis unfolding u1 u2 .
  qed
qed

lemma has_unresolved_set_cong:
  "set ks = set ks' \<Longrightarrow> has_unresolved t V ks = has_unresolved t V ks'"
  by (simp add: has_unresolved_iff)

text \<open>
  Claim C8. Two calls of SortByLayers on the same graph, whatever orders the map iterations
  take, return the same error, and layer sequences of the same length whose layers are
  equal as sets index by index. The second call runs on the graph the first call leaves.
\<close>

theorem SortByLayers_deterministic:
  assumes "iteration_order (allValues (build g)) ks1"
    and "iteration_order (allValues (build g)) ks2"
    and "iteration_order (allValues (build g)) ks1'"
    and "iteration_order (allValues (build g)) ks2'"
  shows "ret_err (SortByLayers ks1' ks2' (graph_after (SortByLayers ks1 ks2 g))) =
           ret_err (SortByLayers ks1 ks2 g) \<and>
         length (ret_layers (SortByLayers ks1' ks2' (graph_after (SortByLayers ks1 ks2 g)))) =
           length (ret_layers (SortByLayers ks1 ks2 g)) \<and>
         map set (ret_layers (SortByLayers ks1' ks2' (graph_after (SortByLayers ks1 ks2 g)))) =
           map set (ret_layers (SortByLayers ks1 ks2 g))"
proof -
  have ga: "graph_after (SortByLayers ks1 ks2 g) = g"
    by (simp add: SortByLayers_unfold)
  from assms have s1: "set ks1' = set ks1" and s2: "set ks2' = set ks2"
    by (simp_all add: iteration_order_def)
  from s1 have "set (first_layer (build g) ks1') = set (first_layer (build g) ks1)"
    by (simp add: first_layer_def)
  from layers_loop_set_eq[OF this refl, of g "[]" "{}"]
  have L: "map set (final_layers g ks1') = map set (final_layers g ks1)"
    and V: "final_visited g ks1' = final_visited g ks1"
    by (simp_all add: final_layers_def final_visited_def)
  from has_unresolved_set_cong[OF s2, of "build g" "final_visited g ks1"] V
  have U: "has_unresolved (build g) (final_visited g ks1') ks2' =
           has_unresolved (build g) (final_visited g ks1) ks2" by simp
  have m: "map set (ret_layers (SortByLayers ks1' ks2' g)) =
           map set (ret_layers (SortByLayers ks1 ks2 g))"
    using L U by (simp add: SortByLayers_unfold)
  from m have "length (map set (ret_layers (SortByLayers ks1' ks2' g))) =
           length (map set (ret_layers (SortByLayers ks1 ks2 g)))" by simp
  then have l: "length (ret_layers (SortByLayers ks1' ks2' g)) =
           length (ret_layers (SortByLayers ks1 ks2 g))" by simp
  have e: "ret_err (SortByLayers ks1' ks2' g) = ret_err (SortByLayers ks1 ks2 g)"
    using U by (simp add: SortByLayers_unfold)
  from m l e show ?thesis unfolding ga by blast
qed

lemma two_chains_orders:
  "iteration_order (allValues (build two_chains)) [1, 2, 3, 4]"
  "iteration_order (allValues (build two_chains)) [2, 1, 4, 3]"
  by (auto simp: iteration_order_def allValues_build identities_def two_chains_def graph_eval)

lemma two_chains_sort:
  "SortByLayers [1, 2, 3, 4] [1, 2, 3, 4] two_chains =
     \<lparr>ret_layers = [[1, 2], [3, 4]], ret_err = None, graph_after = two_chains\<rparr>"
  "SortByLayers [2, 1, 4, 3] [2, 1, 4, 3] two_chains =
     \<lparr>ret_layers = [[2, 1], [4, 3]], ret_err = None, graph_after = two_chains\<rparr>"
  by (simp_all add: two_chains_def graph_eval build_eval sort_eval)

text \<open>The theorem at two iteration orders that return the layers in different orders.\<close>

theorem SortByLayers_deterministic_witness:
  "iteration_order (allValues (build two_chains)) [1, 2, 3, 4] \<and>
   iteration_order (allValues (build two_chains)) [2, 1, 4, 3] \<and>
   ret_layers (SortByLayers [1, 2, 3, 4] [1, 2, 3, 4] two_chains) = [[1, 2], [3, 4]] \<and>
   ret_layers (SortByLayers [2, 1, 4, 3] [2, 1, 4, 3]
      (graph_after (SortByLayers [1, 2, 3, 4] [1, 2, 3, 4] two_chains))) = [[2, 1], [4, 3]] \<and>
   map set (ret_layers (SortByLayers [2, 1, 4, 3] [2, 1, 4, 3]
      (graph_after (SortByLayers [1, 2, 3, 4] [1, 2, 3, 4] two_chains)))) =
     map set (ret_layers (SortByLayers [1, 2, 3, 4] [1, 2, 3, 4] two_chains))"
proof -
  have "ret_layers (SortByLayers [1, 2, 3, 4] [1, 2, 3, 4] two_chains) = [[1, 2], [3, 4]]"
    by (simp add: two_chains_sort)
  moreover have "ret_layers (SortByLayers [2, 1, 4, 3] [2, 1, 4, 3]
      (graph_after (SortByLayers [1, 2, 3, 4] [1, 2, 3, 4] two_chains))) = [[2, 1], [4, 3]]"
    by (simp add: two_chains_sort)
  ultimately show ?thesis
    using SortByLayers_deterministic[OF two_chains_orders(1) two_chains_orders(1)
        two_chains_orders(2) two_chains_orders(2)] two_chains_orders
    by blast
qed

subsection \<open>The graph is only read: SortByLayers over an explicit store\<close>

text \<open>
  Whether a call leaves the graph alone is a question about memory. A Go slice is a
  header (pointer, length, capacity) over a backing array; \<^verbatim>\<open>AddNode\<close> stores the header
  of the caller's \<^verbatim>\<open>deps\<close>, and line 42 of SortByLayers,
  \<^verbatim>\<open>dependsOn[node.value] = node.deps\<close>, copies that header into a local map, so the
  map's values share their arrays with the graph. The function then calls \<^verbatim>\<open>append\<close> in
  four places (lines 45, 55, 64 and 95), and \<^verbatim>\<open>append\<close> writes in place whenever the
  slice has spare capacity. This section models the function once more, statement by
  statement, over a store of backing arrays, so that every such write is a write to the
  store and the receiver is threaded through the whole call.

  A store maps array identities to arrays; identities below \<^verbatim>\<open>next_id\<close> are allocated.
  A slice \<^verbatim>\<open>s\<close> denotes the elements \<^verbatim>\<open>soff s\<close>, ..., \<^verbatim>\<open>soff s + slen s - 1\<close> of array
  \<^verbatim>\<open>sptr s\<close>, and may grow in place up to \<^verbatim>\<open>scap s\<close> elements. Slices of one array may
  overlap, as \<^verbatim>\<open>a[0:1]\<close> and \<^verbatim>\<open>a[1:3]\<close> do.
\<close>

record slice =
  sptr :: nat
  soff :: nat
  slen :: nat
  scap :: nat

record 'a heap =
  arrays :: "nat \<Rightarrow> 'a list"
  next_id :: nat

text \<open>
  What the language leaves to the runtime: the capacity chosen when \<^verbatim>\<open>append\<close> has to
  allocate (at least the new length), and the zero value that fills the spare room.
\<close>

record 'a runtime =
  grow_cap :: "nat \<Rightarrow> nat"
  zero_value :: 'a

definition nil_slice :: slice where
  "nil_slice = \<lparr>sptr = 0, soff = 0, slen = 0, scap = 0\<rparr>"

definition slice_get :: "'a heap \<Rightarrow> slice \<Rightarrow> nat \<Rightarrow> 'a" where
  "slice_get h s i = arrays h (sptr s) ! (soff s + i)"

definition elems :: "'a heap \<Rightarrow> slice \<Rightarrow> 'a list" where
  "elems h s = take (slen s) (drop (soff s) (arrays h (sptr s)))"

text \<open>
  \<^verbatim>\<open>append(s, x)\<close>. With spare capacity the element is written into the backing array of
  \<^verbatim>\<open>s\<close>, at the position just behind its last element, whatever else shares that array;
  without, a new array is allocated, the elements are copied and \<^verbatim>\<open>x\<close> is put behind
  them.
\<close>

definition append_slice :: "'a runtime \<Rightarrow> slice \<Rightarrow> 'a \<Rightarrow> 'a heap \<Rightarrow> slice \<times> 'a heap" where
  "append_slice rt s x h =
     (if slen s < scap s
      then (s\<lparr>slen := slen s + 1\<rparr>,
            h\<lparr>arrays := (arrays h)(sptr s := (arrays h (sptr s))[soff s + slen s := x])\<rparr>)
      else (let n = max (grow_cap rt (slen s + 1)) (slen s + 1);
                a = next_id h
            in (\<lparr>sptr = a, soff = 0, slen = slen s + 1, scap = n\<rparr>,
                h\<lparr>arrays := (arrays h)
                      (a := elems h s @ x # replicate (n - (slen s + 1)) (zero_value rt)),
                  next_id := a + 1\<rparr>)))"

text \<open>
  The graph with its dependency lists as slices. \<^verbatim>\<open>AddNode\<close> keeps the header it is
  given: the node shares the caller's array.
\<close>

record 'a hnode =
  hvalue :: 'a
  hdeps :: slice

record 'a hgraph =
  hnodes :: "'a hnode list"

definition AddNode_h :: "'a hgraph \<Rightarrow> 'a \<Rightarrow> slice \<Rightarrow> 'a hgraph" where
  "AddNode_h g v ds = g\<lparr>hnodes := hnodes g @ [\<lparr>hvalue = v, hdeps = ds\<rparr>]\<rparr>"

text \<open>
  The state of a call: the store, the receiver \<^verbatim>\<open>g\<close>, and the local variables of
  SortByLayers. The two maps to slices hold headers; \<^verbatim>\<open>result\<close>, of type \<^verbatim>\<open>[][]T\<close>, is
  the list of the headers appended to it (its own backing array holds headers, not
  elements of type \<^verbatim>\<open>T\<close>, and starts from nil inside the call).
\<close>

record 'a frame =
  mem :: "'a heap"
  recv :: "'a hgraph"
  dependsOnS :: "'a \<rightharpoonup> slice"
  dependedOnByS :: "'a \<rightharpoonup> slice"
  allValuesS :: "'a set"
  currentLayerS :: slice
  resultS :: "slice list"
  visitedS :: "'a set"
  nextLayerS :: slice
  layerDepMapS :: "'a set"

text \<open>Reading a map of slices at a missing key gives the nil slice.\<close>

definition lookup_slice :: "('a \<rightharpoonup> slice) \<Rightarrow> 'a \<Rightarrow> slice" where
  "lookup_slice m k = (case m k of None \<Rightarrow> nil_slice | Some s \<Rightarrow> s)"

text \<open>
  \<^verbatim>\<open>for _, x := range s { body }\<close>: the header of \<^verbatim>\<open>s\<close> is fixed when the loop starts, and
  element \<^verbatim>\<open>i\<close> is read from the store as it is when iteration \<^verbatim>\<open>i\<close> begins, so a write
  made by an earlier iteration is seen. \<^verbatim>\<open>range_nodes\<close> is the same loop over
  \<^verbatim>\<open>g.nodes\<close>, read through the receiver.
\<close>

function range_slice :: "slice \<Rightarrow> ('a \<Rightarrow> 'a frame \<Rightarrow> 'a frame) \<Rightarrow> nat \<Rightarrow> 'a frame \<Rightarrow> 'a frame" where
  "range_slice s body i fr =
     (if i < slen s then range_slice s body (i + 1) (body (slice_get (mem fr) s i) fr) else fr)"
  by pat_completeness auto
termination
  by (relation "measure (\<lambda>(s, body, i, fr). slen s - i)") auto

declare range_slice.simps [simp del]

function range_nodes :: "nat \<Rightarrow> ('a hnode \<Rightarrow> 'a frame \<Rightarrow> 'a frame) \<Rightarrow> nat \<Rightarrow> 'a frame \<Rightarrow> 'a frame" where
  "range_nodes n body i fr =
     (if i < n then range_nodes n body (i + 1) (body (hnodes (recv fr) ! i) fr) else fr)"
  by pat_completeness auto
termination
  by (relation "measure (\<lambda>(n, body, i, fr). n - i)") auto

declare range_nodes.simps [simp del]

text \<open>
  Lines 40 to 47. The inner loop body is
  \<^verbatim>\<open>allValues[dep] = true; dependedOnBy[dep] = append(dependedOnBy[dep], node.value)\<close>;
  before it, \<^verbatim>\<open>dependsOn[node.value] = node.deps\<close> stores the node's own header.
\<close>

definition add_dep_h :: "'a runtime \<Rightarrow> 'a \<Rightarrow> 'a \<Rightarrow> 'a frame \<Rightarrow> 'a frame" where
  "add_dep_h rt v dep fr =
     (case append_slice rt (lookup_slice (dependedOnByS fr) dep) v (mem fr) of
        (s, h) \<Rightarrow> fr\<lparr>allValuesS := insert dep (allValuesS fr),
                      dependedOnByS := (dependedOnByS fr)(dep \<mapsto> s),
                      mem := h\<rparr>)"

definition add_node_h :: "'a runtime \<Rightarrow> 'a hnode \<Rightarrow> 'a frame \<Rightarrow> 'a frame" where
  "add_node_h rt n fr =
     range_slice (hdeps n) (add_dep_h rt (hvalue n)) 0
       (fr\<lparr>allValuesS := insert (hvalue n) (allValuesS fr),
           dependsOnS := (dependsOnS fr)(hvalue n \<mapsto> hdeps n)\<rparr>)"

definition build_h :: "'a runtime \<Rightarrow> 'a frame \<Rightarrow> 'a frame" where
  "build_h rt fr = range_nodes (length (hnodes (recv fr))) (add_node_h rt) 0 fr"

text \<open>
  Lines 51 to 57: \<^verbatim>\<open>currentLayer = append(currentLayer, value)\<close> for every key of
  \<^verbatim>\<open>allValues\<close>, in the order \<^verbatim>\<open>ks\<close> of the iteration, that has no entry in \<^verbatim>\<open>dependsOn\<close>
  or an entry of length 0.
\<close>

definition first_layer_step :: "'a runtime \<Rightarrow> 'a \<Rightarrow> 'a frame \<Rightarrow> 'a frame" where
  "first_layer_step rt v fr =
     (if (case dependsOnS fr v of None \<Rightarrow> True | Some ds \<Rightarrow> slen ds = 0)
      then (case append_slice rt (currentLayerS fr) v (mem fr) of
              (s, h) \<Rightarrow> fr\<lparr>currentLayerS := s, mem := h\<rparr>)
      else fr)"

definition first_layer_h :: "'a runtime \<Rightarrow> 'a list \<Rightarrow> 'a frame \<Rightarrow> 'a frame" where
  "first_layer_h rt ks fr = fold (first_layer_step rt) ks fr"

text \<open>
  Lines 64 to 101, one round of the layer loop: \<^verbatim>\<open>result = append(result, currentLayer)\<close>,
  the marking loop, the fresh \<^verbatim>\<open>nextLayer\<close> and \<^verbatim>\<open>layerDepMap\<close>, the scan with its
  \<^verbatim>\<open>continue\<close> and its \<^verbatim>\<open>break\<close>, and \<^verbatim>\<open>currentLayer = nextLayer\<close>.
\<close>

definition mark_h :: "'a \<Rightarrow> 'a frame \<Rightarrow> 'a frame" where
  "mark_h v fr = fr\<lparr>visitedS := insert v (visitedS fr)\<rparr>"

function allDepsVisited_h :: "'a frame \<Rightarrow> slice \<Rightarrow> nat \<Rightarrow> bool" where
  "allDepsVisited_h fr s i =
     (if i < slen s
      then (if slice_get (mem fr) s i \<notin> visitedS fr then False
            else allDepsVisited_h fr s (i + 1))
      else True)"
  by pat_completeness auto
termination
  by (relation "measure (\<lambda>(fr, s, i). slen s - i)") auto

declare allDepsVisited_h.simps [simp del]

definition consider_dependent_h :: "'a runtime \<Rightarrow> 'a \<Rightarrow> 'a frame \<Rightarrow> 'a frame" where
  "consider_dependent_h rt dependent fr =
     (if dependent \<in> visitedS fr \<or> dependent \<in> layerDepMapS fr then fr
      else if allDepsVisited_h fr (lookup_slice (dependsOnS fr) dependent) 0
           then (case append_slice rt (nextLayerS fr) dependent (mem fr) of
                   (s, h) \<Rightarrow> fr\<lparr>nextLayerS := s, mem := h,
                                 layerDepMapS := insert dependent (layerDepMapS fr)\<rparr>)
           else fr)"

definition scan_value_h :: "'a runtime \<Rightarrow> 'a \<Rightarrow> 'a frame \<Rightarrow> 'a frame" where
  "scan_value_h rt v fr =
     range_slice (lookup_slice (dependedOnByS fr) v) (consider_dependent_h rt) 0 fr"

definition round_h :: "'a runtime \<Rightarrow> 'a frame \<Rightarrow> 'a frame" where
  "round_h rt fr =
     (let fr1 = fr\<lparr>resultS := resultS fr @ [currentLayerS fr]\<rparr>;
          fr2 = range_slice (currentLayerS fr1) mark_h 0 fr1;
          fr3 = fr2\<lparr>nextLayerS := nil_slice, layerDepMapS := {}\<rparr>;
          fr4 = range_slice (currentLayerS fr3) (scan_value_h rt) 0 fr3
      in fr4\<lparr>currentLayerS := nextLayerS fr4\<rparr>)"

text \<open>
  \<^verbatim>\<open>for len(currentLayer) > 0 { ... }\<close>. Nothing in the loop itself bounds the number of
  rounds, so here the loop is a partial function: a run that never leaves the loop is the
  value \<^verbatim>\<open>None\<close>. That every run does leave it is part of what is proved below.
\<close>

partial_function (option) layers_loop_h :: "'a runtime \<Rightarrow> 'a frame \<Rightarrow> 'a frame option" where
  "layers_loop_h rt fr =
     (if slen (currentLayerS fr) > 0 then layers_loop_h rt (round_h rt fr) else Some fr)"

text \<open>Lines 105 to 112, over the keys of \<^verbatim>\<open>allValues\<close> in the order of the iteration.\<close>

fun has_unresolved_h :: "'a frame \<Rightarrow> 'a list \<Rightarrow> bool" where
  "has_unresolved_h fr [] = False"
| "has_unresolved_h fr (v # vs) =
     (if v \<notin> visitedS fr \<and>
         (case dependsOnS fr v of None \<Rightarrow> False | Some ds \<Rightarrow> slen ds > 0)
      then True
      else has_unresolved_h fr vs)"

text \<open>
  A call returns its two results; next to them the model keeps the store and the receiver
  as the call leaves them. On entry the maps are empty and the slice variables nil.
\<close>

record 'a hresult =
  layers_h :: "slice list"
  err_h :: "error option"
  mem_after :: "'a heap"
  recv_after :: "'a hgraph"

definition entry_frame :: "'a heap \<Rightarrow> 'a hgraph \<Rightarrow> 'a frame" where
  "entry_frame h g =
     \<lparr>mem = h, recv = g, dependsOnS = Map.empty, dependedOnByS = Map.empty, allValuesS = {},
      currentLayerS = nil_slice, resultS = [], visitedS = {}, nextLayerS = nil_slice,
      layerDepMapS = {}\<rparr>"

definition SortByLayers_h ::
  "'a runtime \<Rightarrow> 'a list \<Rightarrow> 'a list \<Rightarrow> 'a heap \<Rightarrow> 'a hgraph \<Rightarrow> 'a hresult option" where
  "SortByLayers_h rt ks1 ks2 h g =
     (case layers_loop_h rt (first_layer_h rt ks1 (build_h rt (entry_frame h g))) of
        None \<Rightarrow> None
      | Some fr \<Rightarrow>
          Some (if has_unresolved_h fr ks2
                then \<lparr>layers_h = [], err_h = Some ErrCyclicDependency,
                       mem_after = mem fr, recv_after = recv fr\<rparr>
                else \<lparr>layers_h = resultS fr, err_h = None,
                       mem_after = mem fr, recv_after = recv fr\<rparr>))"

subsubsection \<open>Slices in a store\<close>

text \<open>
  A slice is valid in a store when its capacity lies inside an allocated array (a slice of
  capacity 0 points at nothing). It is owned from a watermark \<^verbatim>\<open>wm\<close> on when its array
  was allocated at or after \<^verbatim>\<open>wm\<close>. Two slices are apart when they cannot
  write into each other. \<^verbatim>\<open>old_kept h0 h\<close>: every array allocated in \<^verbatim>\<open>h0\<close> has in \<^verbatim>\<open>h\<close>
  the contents it has in \<^verbatim>\<open>h0\<close>.
\<close>

definition valid_in :: "'a heap \<Rightarrow> slice \<Rightarrow> bool" where
  "valid_in h s \<longleftrightarrow>
     slen s \<le> scap s \<and>
     (0 < scap s \<longrightarrow> sptr s < next_id h \<and> soff s + scap s \<le> length (arrays h (sptr s)))"

definition owned :: "nat \<Rightarrow> 'a heap \<Rightarrow> slice \<Rightarrow> bool" where
  "owned wm h s \<longleftrightarrow> valid_in h s \<and> (0 < scap s \<longrightarrow> wm \<le> sptr s)"

definition apart :: "slice \<Rightarrow> slice \<Rightarrow> bool" where
  "apart s t \<longleftrightarrow> scap s = 0 \<or> scap t = 0 \<or> sptr s \<noteq> sptr t"

definition old_kept :: "'a heap \<Rightarrow> 'a heap \<Rightarrow> bool" where
  "old_kept h0 h \<longleftrightarrow> next_id h0 \<le> next_id h \<and> (\<forall>a < next_id h0. arrays h a = arrays h0 a)"

lemma valid_nil [simp]: "valid_in h nil_slice"
  by (simp add: valid_in_def nil_slice_def)

lemma owned_nil [simp]: "owned wm h nil_slice"
  by (simp add: owned_def nil_slice_def valid_in_def)

lemma elems_nil [simp]: "elems h nil_slice = []"
  by (simp add: elems_def nil_slice_def)

lemma apart_nil [simp]: "apart s nil_slice" "apart nil_slice s"
  by (simp_all add: apart_def nil_slice_def)

lemma apart_sym: "apart s t \<Longrightarrow> apart t s"
  by (auto simp: apart_def)

lemma length_elems: "valid_in h s \<Longrightarrow> length (elems h s) = slen s"
  by (cases "scap s = 0") (auto simp: valid_in_def elems_def)

lemma slice_get_elems:
  assumes "valid_in h s" and "i < slen s"
  shows "slice_get h s i = elems h s ! i"
proof -
  from assms have "soff s + i < length (arrays h (sptr s))"
    by (auto simp: valid_in_def)
  with assms(2) show ?thesis
    by (simp add: slice_get_def elems_def)
qed

lemma old_kept_refl: "old_kept h h"
  by (simp add: old_kept_def)

lemma old_kept_valid:
  assumes "old_kept h0 h" and "valid_in h0 s"
  shows "valid_in h s" and "elems h s = elems h0 s"
proof -
  show "valid_in h s"
    using assms by (cases "scap s = 0") (auto simp: valid_in_def old_kept_def)
  show "elems h s = elems h0 s"
  proof (cases "scap s = 0")
    case True
    with assms(2) have "slen s = 0" by (simp add: valid_in_def)
    then show ?thesis by (simp add: elems_def)
  next
    case False
    with assms show ?thesis by (simp add: valid_in_def old_kept_def elems_def)
  qed
qed

lemma take_Suc_drop_update:
  assumes "k + n < length xs"
  shows "take (Suc n) (drop k (xs[k + n := x])) = take n (drop k xs) @ [x]"
proof -
  have d: "drop k (xs[k + n := x]) = (drop k xs)[n := x]"
    by (simp add: drop_update_swap)
  from assms have n: "n < length (drop k xs)" by simp
  show ?thesis
    unfolding d using n by (simp add: take_Suc_conv_app_nth)
qed

lemma take_drop_update_beyond:
  "take n (drop k (xs[k + n := x])) = take n (drop k xs)"
  by (simp add: drop_update_swap)

text \<open>What \<^verbatim>\<open>append\<close> returns.\<close>

lemma append_slice_result:
  assumes v: "valid_in h s" and a: "append_slice rt s x h = (s', h')"
  shows "valid_in h' s'" and "elems h' s' = elems h s @ [x]" and "0 < scap s'"
    and "next_id h \<le> next_id h'"
    and "sptr s' = sptr s \<and> 0 < scap s \<or> sptr s' = next_id h"
proof -
  show "valid_in h' s'"
  proof (cases "slen s < scap s")
    case True
    with a have "s' = s\<lparr>slen := slen s + 1\<rparr>"
      and "h' = h\<lparr>arrays := (arrays h)(sptr s := (arrays h (sptr s))[soff s + slen s := x])\<rparr>"
      by (simp_all add: append_slice_def)
    with v True show ?thesis by (simp add: valid_in_def)
  next
    case False
    with a show ?thesis
      by (auto simp: append_slice_def Let_def valid_in_def length_elems[OF v])
  qed
  show "elems h' s' = elems h s @ [x]"
  proof (cases "slen s < scap s")
    case True
    with a have s': "s' = s\<lparr>slen := slen s + 1\<rparr>"
      and h': "h' = h\<lparr>arrays := (arrays h)(sptr s := (arrays h (sptr s))[soff s + slen s := x])\<rparr>"
      by (simp_all add: append_slice_def)
    from v True have "soff s + slen s < length (arrays h (sptr s))"
      by (simp add: valid_in_def)
    from take_Suc_drop_update[OF this, of x] show ?thesis
      by (simp add: s' h' elems_def)
  next
    case False
    with a show ?thesis
      by (auto simp: append_slice_def Let_def elems_def[of h' s'] length_elems[OF v])
  qed
  show "0 < scap s'"
    using a by (auto simp: append_slice_def Let_def split: if_splits)
  show "next_id h \<le> next_id h'"
    using a by (auto simp: append_slice_def Let_def split: if_splits)
  show "sptr s' = sptr s \<and> 0 < scap s \<or> sptr s' = next_id h"
    using a by (auto simp: append_slice_def Let_def split: if_splits)
qed

text \<open>What \<^verbatim>\<open>append\<close> leaves alone.\<close>

lemma append_slice_arrays:
  assumes v: "valid_in h s" and a: "append_slice rt s x h = (s', h')"
    and b: "b < next_id h" and n: "scap s = 0 \<or> b \<noteq> sptr s"
  shows "arrays h' b = arrays h b"
proof (cases "slen s < scap s")
  case True
  with a n show ?thesis by (auto simp: append_slice_def)
next
  case False
  with a b show ?thesis by (auto simp: append_slice_def Let_def)
qed

lemma append_slice_other:
  assumes v: "valid_in h s" and a: "append_slice rt s x h = (s', h')"
    and t: "valid_in h t" and ap: "apart t s"
  shows "valid_in h' t" and "elems h' t = elems h t" and "apart t s'"
proof -
  note r = append_slice_result[OF v a]
  show "valid_in h' t" "elems h' t = elems h t"
  proof -
    show "valid_in h' t"
    proof (cases "scap t = 0")
      case True
      with t show ?thesis by (simp add: valid_in_def)
    next
      case False
      with t have b: "sptr t < next_id h" by (simp add: valid_in_def)
      from False ap have "scap s = 0 \<or> sptr t \<noteq> sptr s" by (simp add: apart_def)
      from append_slice_arrays[OF v a b this] t r(4) b show ?thesis
        by (auto simp: valid_in_def)
    qed
    show "elems h' t = elems h t"
    proof (cases "scap t = 0")
      case True
      with t have "slen t = 0" by (simp add: valid_in_def)
      then show ?thesis by (simp add: elems_def)
    next
      case False
      with t have b: "sptr t < next_id h" by (simp add: valid_in_def)
      from False ap have "scap s = 0 \<or> sptr t \<noteq> sptr s" by (simp add: apart_def)
      from append_slice_arrays[OF v a b this] show ?thesis
        by (simp add: elems_def)
    qed
  qed
  show "apart t s'"
  proof (cases "scap t = 0")
    case True
    then show ?thesis by (simp add: apart_def)
  next
    case False
    with t have b: "sptr t < next_id h" by (simp add: valid_in_def)
    from r(5) show ?thesis
    proof
      assume "sptr s' = sptr s \<and> 0 < scap s"
      with ap False show ?thesis by (simp add: apart_def)
    next
      assume "sptr s' = next_id h"
      with b show ?thesis by (simp add: apart_def)
    qed
  qed
qed

lemma append_slice_owned:
  assumes o: "owned wm h s" and w: "wm \<le> next_id h" and a: "append_slice rt s x h = (s', h')"
  shows "owned wm h' s'" and "\<forall>b < wm. arrays h' b = arrays h b"
proof -
  from o have v: "valid_in h s" by (simp add: owned_def)
  note r = append_slice_result[OF v a]
  from r(5) o w have "wm \<le> sptr s'" by (auto simp: owned_def)
  with r(1) show "owned wm h' s'" by (simp add: owned_def)
  show "\<forall>b < wm. arrays h' b = arrays h b"
  proof (intro allI impI)
    fix b assume b: "b < wm"
    with w have b': "b < next_id h" by simp
    from o b have "scap s = 0 \<or> b \<noteq> sptr s" by (auto simp: owned_def)
    from append_slice_arrays[OF v a b' this] show "arrays h' b = arrays h b" .
  qed
qed

lemma append_slice_old_kept:
  assumes k: "old_kept h0 h" and o: "owned (next_id h0) h s"
    and a: "append_slice rt s x h = (s', h')"
  shows "old_kept h0 h'"
proof -
  from k have w: "next_id h0 \<le> next_id h" by (simp add: old_kept_def)
  from o have v: "valid_in h s" by (simp add: owned_def)
  from append_slice_owned(2)[OF o w a] append_slice_result(4)[OF v a] k show ?thesis
    by (simp add: old_kept_def)
qed

lemma append_slice_owned_other:
  assumes v: "valid_in h s" and a: "append_slice rt s x h = (s', h')"
    and t: "owned wm h t" and ap: "apart t s"
  shows "owned wm h' t"
  using append_slice_other(1)[OF v a _ ap] t by (simp add: owned_def)

subsubsection \<open>Reading the graph and the maps out of the store\<close>

text \<open>
  The graph a store and a receiver denote: each node with the elements its slice has in
  that store. This is the recorded list of (identity, dependency list) entries; it changes
  when \<^verbatim>\<open>hnodes\<close> changes and when an array under one of the slices is written. A graph
  is well formed in a store when the slices of its nodes are valid there, as the slices of
  a running program are.

  The invariant of the call, \<^verbatim>\<open>inv0\<close>: the receiver is the one passed in, the arrays
  allocated at entry are as they were, the values of \<^verbatim>\<open>dependsOn\<close> are slices of those
  arrays, and every slice the function appends to lies in an array allocated since.
\<close>

definition abs_node :: "'a heap \<Rightarrow> 'a hnode \<Rightarrow> 'a node" where
  "abs_node h n = \<lparr>val = hvalue n, deps = elems h (hdeps n)\<rparr>"

definition abs_graph :: "'a heap \<Rightarrow> 'a hgraph \<Rightarrow> 'a Graph" where
  "abs_graph h g = \<lparr>nodes = map (abs_node h) (hnodes g)\<rparr>"

definition wf_graph :: "'a heap \<Rightarrow> 'a hgraph \<Rightarrow> bool" where
  "wf_graph h g \<longleftrightarrow> (\<forall>n \<in> set (hnodes g). valid_in h (hdeps n))"

definition tabs :: "'a frame \<Rightarrow> 'a tables" where
  "tabs fr =
     \<lparr>dependsOn = (\<lambda>k. map_option (elems (mem fr)) (dependsOnS fr k)),
      dependedOnBy = (\<lambda>k. map_option (elems (mem fr)) (dependedOnByS fr k)),
      allValues = allValuesS fr\<rparr>"

definition inv0 :: "'a heap \<Rightarrow> 'a hgraph \<Rightarrow> 'a frame \<Rightarrow> bool" where
  "inv0 h0 g fr \<longleftrightarrow>
     recv fr = g \<and> old_kept h0 (mem fr) \<and>
     (\<forall>k s. dependsOnS fr k = Some s \<longrightarrow> valid_in h0 s) \<and>
     (\<forall>k s. dependedOnByS fr k = Some s \<longrightarrow> owned (next_id h0) (mem fr) s) \<and>
     owned (next_id h0) (mem fr) (currentLayerS fr) \<and>
     owned (next_id h0) (mem fr) (nextLayerS fr) \<and>
     (\<forall>l \<in> set (resultS fr). owned (next_id h0) (mem fr) l)"

definition built :: "'a heap \<Rightarrow> 'a hgraph \<Rightarrow> 'a frame \<Rightarrow> 'a tables \<Rightarrow> bool" where
  "built h0 g fr t \<longleftrightarrow>
     inv0 h0 g fr \<and> currentLayerS fr = nil_slice \<and> nextLayerS fr = nil_slice \<and>
     resultS fr = [] \<and> visitedS fr = {} \<and> layerDepMapS fr = {} \<and>
     (\<forall>k k' s u. k \<noteq> k' \<longrightarrow> dependedOnByS fr k = Some s \<longrightarrow>
        dependedOnByS fr k' = Some u \<longrightarrow> apart s u) \<and>
     tabs fr = t"

lemma range_slice_sim_from:
  assumes stable: "\<And>fr a. R fr a \<Longrightarrow> valid_in (mem fr) s \<and> elems (mem fr) s = xs"
    and step: "\<And>x fr a. R fr a \<Longrightarrow> x \<in> set xs \<Longrightarrow> R (body x fr) (abody x a)"
  shows "R fr a \<Longrightarrow> i \<le> length xs \<Longrightarrow>
           R (range_slice s body i fr) (fold abody (drop i xs) a)"
proof (induction "length xs - i" arbitrary: i fr a)
  case 0
  from stable[OF "0.prems"(1)] have l: "slen s = length xs"
    using length_elems[of "mem fr" s] by auto
  from 0 have "i = length xs" by simp
  with l "0.prems"(1) show ?case by (simp add: range_slice.simps)
next
  case (Suc m)
  from stable[OF Suc.prems(1)] have v: "valid_in (mem fr) s" and e: "elems (mem fr) s = xs"
    by simp_all
  from v e have l: "slen s = length xs" using length_elems[of "mem fr" s] by simp
  from Suc.hyps(2) have i: "i < length xs" by simp
  with l v e have x: "slice_get (mem fr) s i = xs ! i"
    by (simp add: slice_get_elems)
  from i have mem: "xs ! i \<in> set xs" by simp
  have R': "R (body (xs ! i) fr) (abody (xs ! i) a)"
    using Suc.prems(1) mem by (rule step)
  from Suc.hyps(2) have m: "m = length xs - Suc i" by simp
  from i have le: "Suc i \<le> length xs" by simp
  from Suc.hyps(1)[OF m R' le]
  have "R (range_slice s body (Suc i) (body (xs ! i) fr))
          (fold abody (drop (Suc i) xs) (abody (xs ! i) a))" .
  moreover have "range_slice s body i fr = range_slice s body (Suc i) (body (xs ! i) fr)"
    using i l x by (subst range_slice.simps) simp
  moreover have "drop i xs = xs ! i # drop (Suc i) xs"
    using i by (simp add: Cons_nth_drop_Suc)
  ultimately show ?case by simp
qed

lemma range_slice_sim:
  assumes "\<And>fr a. R fr a \<Longrightarrow> valid_in (mem fr) s \<and> elems (mem fr) s = xs"
    and "\<And>x fr a. R fr a \<Longrightarrow> x \<in> set xs \<Longrightarrow> R (body x fr) (abody x a)"
    and "R fr a"
  shows "R (range_slice s body 0 fr) (fold abody xs a)"
  using range_slice_sim_from[of R s xs body abody fr a 0, OF assms(1,2) assms(3)] by simp

lemma range_nodes_sim_from:
  assumes same: "\<And>fr a. R fr a \<Longrightarrow> hnodes (recv fr) = ns"
    and step: "\<And>n fr a. R fr a \<Longrightarrow> n \<in> set ns \<Longrightarrow> R (body n fr) (abody n a)"
  shows "R fr a \<Longrightarrow> i \<le> length ns \<Longrightarrow>
           R (range_nodes (length ns) body i fr) (fold abody (drop i ns) a)"
proof (induction "length ns - i" arbitrary: i fr a)
  case 0
  then have "i = length ns" by simp
  with "0.prems"(1) show ?case by (simp add: range_nodes.simps)
next
  case (Suc m)
  from Suc.hyps(2) have i: "i < length ns" by simp
  from same[OF Suc.prems(1)] have x: "hnodes (recv fr) ! i = ns ! i" by simp
  from i have mem: "ns ! i \<in> set ns" by simp
  have R': "R (body (ns ! i) fr) (abody (ns ! i) a)"
    using Suc.prems(1) mem by (rule step)
  from Suc.hyps(2) have m: "m = length ns - Suc i" by simp
  from i have le: "Suc i \<le> length ns" by simp
  from Suc.hyps(1)[OF m R' le]
  have "R (range_nodes (length ns) body (Suc i) (body (ns ! i) fr))
          (fold abody (drop (Suc i) ns) (abody (ns ! i) a))" .
  moreover have "range_nodes (length ns) body i fr =
      range_nodes (length ns) body (Suc i) (body (ns ! i) fr)"
    using i x by (subst range_nodes.simps) simp
  moreover have "drop i ns = ns ! i # drop (Suc i) ns"
    using i by (simp add: Cons_nth_drop_Suc)
  ultimately show ?case by simp
qed

lemma range_nodes_sim:
  assumes "\<And>fr a. R fr a \<Longrightarrow> hnodes (recv fr) = ns"
    and "\<And>n fr a. R fr a \<Longrightarrow> n \<in> set ns \<Longrightarrow> R (body n fr) (abody n a)"
    and "R fr a"
  shows "R (range_nodes (length ns) body 0 fr) (fold abody ns a)"
  using range_nodes_sim_from[of R ns body abody fr a 0, OF assms(1,2) assms(3)] by simp

lemma fold_sim:
  assumes "\<And>x fr a. R fr a \<Longrightarrow> x \<in> set xs \<Longrightarrow> R (body x fr) (abody x a)"
  shows "R fr a \<Longrightarrow> R (fold body xs fr) (fold abody xs a)"
  using assms by (induction xs arbitrary: fr a) auto

lemma lookup_slice_owned:
  "\<forall>k s. m k = Some s \<longrightarrow> owned wm h s \<Longrightarrow> owned wm h (lookup_slice m k)"
  by (cases "m k") (auto simp: lookup_slice_def)

lemma lookup_slice_elems:
  "elems h (lookup_slice m k) = lookup (\<lambda>k. map_option (elems h) (m k)) k"
  by (cases "m k") (auto simp: lookup_slice_def lookup_def)

lemma graph_slice_kept:
  assumes "inv0 h0 g fr" and "valid_in h0 s"
  shows "valid_in (mem fr) s" and "elems (mem fr) s = elems h0 s"
  using assms old_kept_valid[of h0 "mem fr" s] by (auto simp: inv0_def)

subsubsection \<open>The first pass builds the maps of the functional model\<close>

lemma add_dep_h_sim:
  assumes b: "built h0 g fr t"
  shows "built h0 g (add_dep_h rt v dep fr) (add_dep v dep t)"
proof -
  let ?D = "dependedOnByS fr" and ?h = "mem fr" and ?wm = "next_id h0"
  let ?s = "lookup_slice ?D dep"
  obtain s' h' where a: "append_slice rt ?s v ?h = (s', h')" by (cases "append_slice rt ?s v ?h")
  have fr': "add_dep_h rt v dep fr =
      fr\<lparr>allValuesS := insert dep (allValuesS fr), dependedOnByS := ?D(dep \<mapsto> s'), mem := h'\<rparr>"
    by (simp add: add_dep_h_def a)
  from b have i0: "inv0 h0 g fr" and t: "tabs fr = t"
    and pw: "\<forall>k k' s u. k \<noteq> k' \<longrightarrow> ?D k = Some s \<longrightarrow> ?D k' = Some u \<longrightarrow> apart s u"
    and nil: "currentLayerS fr = nil_slice" "nextLayerS fr = nil_slice" "resultS fr = []"
      "visitedS fr = {}" "layerDepMapS fr = {}"
    by (simp_all add: built_def)
  from i0 have ok: "old_kept h0 ?h" and oD: "\<forall>k s. ?D k = Some s \<longrightarrow> owned ?wm ?h s"
    and vO: "\<forall>k s. dependsOnS fr k = Some s \<longrightarrow> valid_in h0 s" and rc: "recv fr = g"
    by (simp_all add: inv0_def)
  from oD have os: "owned ?wm ?h ?s" by (rule lookup_slice_owned)
  then have vs: "valid_in ?h ?s" by (simp add: owned_def)
  have ok': "old_kept h0 h'" using ok os a by (rule append_slice_old_kept)
  from ok have w: "?wm \<le> next_id ?h" by (simp add: old_kept_def)
  have os': "owned ?wm h' s'" using os w a by (rule append_slice_owned(1))
  note res = append_slice_result[OF vs a]
  have others: "valid_in h' u \<and> elems h' u = elems ?h u \<and> apart u s' \<and> owned ?wm h' u"
    if k: "k \<noteq> dep" and u: "?D k = Some u" for k u
  proof -
    from oD u have ou: "owned ?wm ?h u" by blast
    then have vu: "valid_in ?h u" by (simp add: owned_def)
    have ap: "apart u ?s"
    proof (cases "?D dep")
      case None
      then show ?thesis by (simp add: lookup_slice_def)
    next
      case (Some s0)
      with pw k u have "apart u s0" by blast
      with Some show ?thesis by (simp add: lookup_slice_def)
    qed
    from append_slice_other[OF vs a vu ap] append_slice_owned_other[OF vs a ou ap]
    show ?thesis by simp
  qed
  have i0': "inv0 h0 g (add_dep_h rt v dep fr)"
    unfolding inv0_def fr'
    using rc ok' vO os' others nil by auto
  have pw': "\<forall>k k' s u. k \<noteq> k' \<longrightarrow> (?D(dep \<mapsto> s')) k = Some s \<longrightarrow>
       (?D(dep \<mapsto> s')) k' = Some u \<longrightarrow> apart s u"
  proof (intro allI impI)
    fix k k' s u
    assume ne: "k \<noteq> k'" and ks: "(?D(dep \<mapsto> s')) k = Some s"
      and ku: "(?D(dep \<mapsto> s')) k' = Some u"
    show "apart s u"
    proof (cases "k = dep")
      case True
      with ne ks ku have "s = s'" "?D k' = Some u" "k' \<noteq> dep" by auto
      with others[of k' u] show ?thesis by (simp add: apart_sym)
    next
      case False
      note kf = this
      show ?thesis
      proof (cases "k' = dep")
        case True
        with kf ks ku have "u = s'" "?D k = Some s" by auto
        with others[OF kf] show ?thesis by simp
      next
        case False
        with kf ks ku pw ne show ?thesis by auto
      qed
    qed
  qed
  have tO: "(\<lambda>k. map_option (elems h') (dependsOnS fr k)) =
            (\<lambda>k. map_option (elems ?h) (dependsOnS fr k))"
  proof
    fix k
    show "map_option (elems h') (dependsOnS fr k) = map_option (elems ?h) (dependsOnS fr k)"
    proof (cases "dependsOnS fr k")
      case None then show ?thesis by simp
    next
      case (Some u)
      with vO have "valid_in h0 u" by blast
      from old_kept_valid(2)[OF ok' this] old_kept_valid(2)[OF ok this] Some
      show ?thesis by simp
    qed
  qed
  have tD: "(\<lambda>k. map_option (elems h') ((?D(dep \<mapsto> s')) k)) =
            (\<lambda>k. map_option (elems ?h) (?D k))
              (dep \<mapsto> lookup (\<lambda>k. map_option (elems ?h) (?D k)) dep @ [v])"
  proof
    fix k
    show "map_option (elems h') ((?D(dep \<mapsto> s')) k) =
          ((\<lambda>k. map_option (elems ?h) (?D k))
              (dep \<mapsto> lookup (\<lambda>k. map_option (elems ?h) (?D k)) dep @ [v])) k"
    proof (cases "k = dep")
      case True
      with res(2) show ?thesis by (simp add: lookup_slice_elems)
    next
      case False
      show ?thesis
      proof (cases "?D k")
        case None
        with False show ?thesis by simp
      next
        case (Some u)
        with others[OF False Some] False show ?thesis by simp
      qed
    qed
  qed
  from tD have tD': "(\<lambda>k. map_option (elems h') (if k = dep then Some s' else ?D k)) =
            (\<lambda>k. map_option (elems ?h) (?D k))
              (dep \<mapsto> lookup (\<lambda>k. map_option (elems ?h) (?D k)) dep @ [v])"
    by simp
  have t': "tabs (add_dep_h rt v dep fr) = add_dep v dep t"
    unfolding fr' t[symmetric] by (simp add: tabs_def add_dep_def tO tD')
  show ?thesis
    unfolding built_def using i0' pw' t' nil by (simp add: fr')
qed

lemma add_node_h_sim:
  assumes b: "built h0 g fr t" and v: "valid_in h0 (hdeps n)"
  shows "built h0 g (add_node_h rt n fr) (add_node (abs_node h0 n) t)"
proof -
  let ?fr1 = "fr\<lparr>allValuesS := insert (hvalue n) (allValuesS fr),
                  dependsOnS := (dependsOnS fr)(hvalue n \<mapsto> hdeps n)\<rparr>"
  let ?t1 = "t\<lparr>allValues := insert (hvalue n) (allValues t),
               dependsOn := (dependsOn t)(hvalue n \<mapsto> elems h0 (hdeps n))\<rparr>"
  from b have i0: "inv0 h0 g fr" and t: "tabs fr = t" by (simp_all add: built_def)
  from graph_slice_kept(2)[OF i0 v] have e: "elems (mem fr) (hdeps n) = elems h0 (hdeps n)" .
  have i1: "inv0 h0 g ?fr1"
    using i0 v by (auto simp: inv0_def)
  have t1: "tabs ?fr1 = ?t1"
    unfolding t[symmetric] by (auto simp: tabs_def e fun_eq_iff)
  have b1: "built h0 g ?fr1 ?t1"
    using b i1 t1 by (simp add: built_def)
  have "built h0 g (range_slice (hdeps n) (add_dep_h rt (hvalue n)) 0 ?fr1)
          (fold (add_dep (hvalue n)) (elems h0 (hdeps n)) ?t1)"
  proof (rule range_slice_sim[where R = "built h0 g"])
    fix fr' a assume "built h0 g fr' a"
    then have "inv0 h0 g fr'" by (simp add: built_def)
    from graph_slice_kept[OF this v]
    show "valid_in (mem fr') (hdeps n) \<and> elems (mem fr') (hdeps n) = elems h0 (hdeps n)"
      by simp
  next
    fix x fr' a assume "built h0 g fr' a"
    then show "built h0 g (add_dep_h rt (hvalue n) x fr') (add_dep (hvalue n) x a)"
      by (rule add_dep_h_sim)
  next
    show "built h0 g ?fr1 ?t1" by (rule b1)
  qed
  then show ?thesis
    by (simp add: add_node_h_def add_node_def abs_node_def)
qed

lemma entry_frame_built: "built h g (entry_frame h g) empty_tables"
  by (simp add: built_def inv0_def entry_frame_def tabs_def empty_tables_def old_kept_refl)

lemma build_h_sim:
  assumes wf: "wf_graph h0 g"
  shows "built h0 g (build_h rt (entry_frame h0 g)) (build (abs_graph h0 g))"
proof -
  have "built h0 g (range_nodes (length (hnodes g)) (add_node_h rt) 0 (entry_frame h0 g))
          (fold (\<lambda>n. add_node (abs_node h0 n)) (hnodes g) empty_tables)"
  proof (rule range_nodes_sim[where R = "built h0 g"])
    fix fr a assume "built h0 g fr a"
    then show "hnodes (recv fr) = hnodes g" by (simp add: built_def inv0_def)
  next
    fix n fr a assume "built h0 g fr a" and "n \<in> set (hnodes g)"
    with wf show "built h0 g (add_node_h rt n fr) (add_node (abs_node h0 n) a)"
      by (auto simp: wf_graph_def intro: add_node_h_sim)
  next
    show "built h0 g (entry_frame h0 g) empty_tables" by (rule entry_frame_built)
  qed
  moreover have "recv (entry_frame h0 g) = g" by (simp add: entry_frame_def)
  moreover have "fold (\<lambda>n. add_node (abs_node h0 n)) (hnodes g) empty_tables =
                 build (abs_graph h0 g)"
    by (simp add: build_def build_tables_def abs_graph_def fold_map comp_def)
  ultimately show ?thesis by (simp add: build_h_def)
qed

subsubsection \<open>The first layer\<close>

lemma append_step:
  assumes ok: "old_kept h0 h" and os: "owned (next_id h0) h s"
    and a: "append_slice rt s x h = (s', h')"
  shows "old_kept h0 h'" and "owned (next_id h0) h' s'" and "elems h' s' = elems h s @ [x]"
    and "\<And>u. valid_in h0 u \<Longrightarrow> elems h' u = elems h u"
    and "\<And>u. owned (next_id h0) h u \<Longrightarrow> apart u s \<Longrightarrow>
           owned (next_id h0) h' u \<and> elems h' u = elems h u \<and> apart u s'"
proof -
  from os have vs: "valid_in h s" by (simp add: owned_def)
  from ok have w: "next_id h0 \<le> next_id h" by (simp add: old_kept_def)
  show ok': "old_kept h0 h'" using ok os a by (rule append_slice_old_kept)
  show "owned (next_id h0) h' s'" using os w a by (rule append_slice_owned(1))
  show "elems h' s' = elems h s @ [x]" using vs a by (rule append_slice_result(2))
  show "elems h' u = elems h u" if "valid_in h0 u" for u
    using old_kept_valid(2)[OF ok' that] old_kept_valid(2)[OF ok that] by simp
  show "owned (next_id h0) h' u \<and> elems h' u = elems h u \<and> apart u s'"
    if ou: "owned (next_id h0) h u" and ap: "apart u s" for u
  proof -
    from ou have vu: "valid_in h u" by (simp add: owned_def)
    from append_slice_other[OF vs a vu ap] append_slice_owned_other[OF vs a ou ap]
    show ?thesis by simp
  qed
qed

lemma tabs_kept:
  assumes "dependsOnS fr' = dependsOnS fr" and "dependedOnByS fr' = dependedOnByS fr"
    and "allValuesS fr' = allValuesS fr"
    and "\<And>k u. dependsOnS fr k = Some u \<Longrightarrow> elems (mem fr') u = elems (mem fr) u"
    and "\<And>k u. dependedOnByS fr k = Some u \<Longrightarrow> elems (mem fr') u = elems (mem fr) u"
  shows "tabs fr' = tabs fr"
proof -
  have "map_option (elems (mem fr')) (dependsOnS fr k) =
        map_option (elems (mem fr)) (dependsOnS fr k)" for k
    using assms(4)[of k] by (cases "dependsOnS fr k") auto
  moreover have "map_option (elems (mem fr')) (dependedOnByS fr k) =
        map_option (elems (mem fr)) (dependedOnByS fr k)" for k
    using assms(5)[of k] by (cases "dependedOnByS fr k") auto
  ultimately show ?thesis
    by (simp add: tabs_def assms(1-3))
qed

definition seeded ::
  "'a heap \<Rightarrow> 'a hgraph \<Rightarrow> 'a tables \<Rightarrow> 'a frame \<Rightarrow> 'a list \<Rightarrow> bool" where
  "seeded h0 g t fr c \<longleftrightarrow>
     inv0 h0 g fr \<and> nextLayerS fr = nil_slice \<and> resultS fr = [] \<and> visitedS fr = {} \<and>
     (\<forall>k s. dependedOnByS fr k = Some s \<longrightarrow> apart s (currentLayerS fr)) \<and>
     tabs fr = t \<and> elems (mem fr) (currentLayerS fr) = c"

lemma no_deps_h:
  assumes "inv0 h0 g fr"
  shows "(case dependsOnS fr v of None \<Rightarrow> True | Some ds \<Rightarrow> slen ds = 0) = no_deps (tabs fr) v"
proof (cases "dependsOnS fr v")
  case None
  then show ?thesis by (simp add: no_deps_def tabs_def)
next
  case (Some ds)
  with assms have "valid_in h0 ds" by (auto simp: inv0_def)
  from graph_slice_kept(1)[OF assms this] have "length (elems (mem fr) ds) = slen ds"
    by (rule length_elems)
  with Some show ?thesis by (simp add: no_deps_def tabs_def)
qed

lemma first_layer_step_sim:
  assumes s: "seeded h0 g t fr c"
  shows "seeded h0 g t (first_layer_step rt v fr) (if no_deps t v then c @ [v] else c)"
proof (cases "no_deps t v")
  case False
  from s have "inv0 h0 g fr" "tabs fr = t" by (simp_all add: seeded_def)
  with False no_deps_h[of h0 g fr v] have "first_layer_step rt v fr = fr"
    by (simp add: first_layer_step_def)
  with s False show ?thesis by simp
next
  case True
  let ?h = "mem fr" and ?s = "currentLayerS fr"
  from s have i0: "inv0 h0 g fr" and t: "tabs fr = t" and c: "elems ?h ?s = c"
    and ap: "\<forall>k u. dependedOnByS fr k = Some u \<longrightarrow> apart u ?s"
    and nil: "nextLayerS fr = nil_slice" "resultS fr = []" "visitedS fr = {}"
    by (simp_all add: seeded_def)
  obtain s' h' where a: "append_slice rt ?s v ?h = (s', h')" by (cases "append_slice rt ?s v ?h")
  from True t no_deps_h[OF i0, of v]
  have fr': "first_layer_step rt v fr = fr\<lparr>currentLayerS := s', mem := h'\<rparr>"
    by (simp add: first_layer_step_def a)
  from i0 have ok: "old_kept h0 ?h" and os: "owned (next_id h0) ?h ?s"
    and oD: "\<forall>k u. dependedOnByS fr k = Some u \<longrightarrow> owned (next_id h0) ?h u"
    and vO: "\<forall>k u. dependsOnS fr k = Some u \<longrightarrow> valid_in h0 u" and rc: "recv fr = g"
    by (simp_all add: inv0_def)
  note st = append_step[OF ok os a]
  have D: "owned (next_id h0) h' u \<and> elems h' u = elems ?h u \<and> apart u s'"
    if "dependedOnByS fr k = Some u" for k u
    using st(5)[of u] oD ap that by blast
  have i0': "inv0 h0 g (fr\<lparr>currentLayerS := s', mem := h'\<rparr>)"
    unfolding inv0_def using rc st(1,2) vO D nil by auto
  have t': "tabs (fr\<lparr>currentLayerS := s', mem := h'\<rparr>) = tabs fr"
  proof (rule tabs_kept)
    fix k u assume "dependsOnS fr k = Some u"
    with vO have "valid_in h0 u" by blast
    from st(4)[OF this] show "elems (mem (fr\<lparr>currentLayerS := s', mem := h'\<rparr>)) u = elems ?h u"
      by simp
  next
    fix k u assume "dependedOnByS fr k = Some u"
    from D[OF this] show "elems (mem (fr\<lparr>currentLayerS := s', mem := h'\<rparr>)) u = elems ?h u"
      by simp
  qed simp_all
  show ?thesis
    unfolding fr' seeded_def using i0' t' t True st(3) c D nil by auto
qed

lemma fold_filter_snoc:
  "fold (\<lambda>v c. if P v then c @ [v] else c) ks c = c @ filter P ks"
  by (induction ks arbitrary: c) auto

lemma first_layer_h_sim:
  assumes b: "built h0 g fr t"
  shows "seeded h0 g t (first_layer_h rt ks fr) (first_layer t ks)"
proof -
  from b have s0: "seeded h0 g t fr []"
    by (simp add: built_def seeded_def)
  have "seeded h0 g t (fold (first_layer_step rt) ks fr)
          (fold (\<lambda>v c. if no_deps t v then c @ [v] else c) ks [])"
  proof (rule fold_sim[where R = "seeded h0 g t"])
    fix x fr' a assume "seeded h0 g t fr' a"
    then show "seeded h0 g t (first_layer_step rt x fr') (if no_deps t x then a @ [x] else a)"
      by (rule first_layer_step_sim)
  next
    show "seeded h0 g t fr []" by (rule s0)
  qed
  then show ?thesis
    by (simp add: first_layer_h_def first_layer_def fold_filter_snoc)
qed

subsubsection \<open>One round of the layer loop\<close>

definition at_head ::
  "'a heap \<Rightarrow> 'a hgraph \<Rightarrow> 'a tables \<Rightarrow> 'a frame \<Rightarrow> 'a list list \<Rightarrow> 'a set \<Rightarrow> 'a list \<Rightarrow> bool" where
  "at_head h0 g t fr r V c \<longleftrightarrow>
     inv0 h0 g fr \<and> tabs fr = t \<and> map (elems (mem fr)) (resultS fr) = r \<and>
     visitedS fr = V \<and> elems (mem fr) (currentLayerS fr) = c"

definition scanning ::
  "'a heap \<Rightarrow> 'a hgraph \<Rightarrow> 'a frame \<Rightarrow> 'a frame \<Rightarrow> 'a list \<times> 'a set \<Rightarrow> bool" where
  "scanning h0 g b fr acc \<longleftrightarrow>
     inv0 h0 g fr \<and> dependsOnS fr = dependsOnS b \<and> dependedOnByS fr = dependedOnByS b \<and>
     currentLayerS fr = currentLayerS b \<and> resultS fr = resultS b \<and>
     visitedS fr = visitedS b \<and> tabs fr = tabs b \<and>
     map (elems (mem fr)) (resultS fr) = map (elems (mem b)) (resultS b) \<and>
     elems (mem fr) (currentLayerS fr) = elems (mem b) (currentLayerS b) \<and>
     (\<forall>k u. dependedOnByS fr k = Some u \<longrightarrow> apart u (nextLayerS fr)) \<and>
     apart (currentLayerS fr) (nextLayerS fr) \<and>
     (\<forall>l \<in> set (resultS fr). apart l (nextLayerS fr)) \<and>
     elems (mem fr) (nextLayerS fr) = fst acc \<and> layerDepMapS fr = snd acc"

lemma scanningD:
  assumes "scanning h0 g b fr acc"
  shows "inv0 h0 g fr" and "dependsOnS fr = dependsOnS b"
    and "dependedOnByS fr = dependedOnByS b" and "currentLayerS fr = currentLayerS b"
    and "resultS fr = resultS b" and "visitedS fr = visitedS b" and "tabs fr = tabs b"
    and "map (elems (mem fr)) (resultS fr) = map (elems (mem b)) (resultS b)"
    and "elems (mem fr) (currentLayerS fr) = elems (mem b) (currentLayerS b)"
    and "\<forall>k u. dependedOnByS fr k = Some u \<longrightarrow> apart u (nextLayerS fr)"
    and "apart (currentLayerS fr) (nextLayerS fr)"
    and "\<forall>l \<in> set (resultS fr). apart l (nextLayerS fr)"
    and "elems (mem fr) (nextLayerS fr) = fst acc" and "layerDepMapS fr = snd acc"
  using assms unfolding scanning_def by blast+

lemma mark_loop:
  assumes i0: "inv0 h0 g fr"
  shows "range_slice (currentLayerS fr) mark_h 0 fr =
           fr\<lparr>visitedS := visitedS fr \<union> set (elems (mem fr) (currentLayerS fr))\<rparr>"
proof -
  let ?c = "elems (mem fr) (currentLayerS fr)"
  from i0 have v: "valid_in (mem fr) (currentLayerS fr)" by (simp add: inv0_def owned_def)
  have "(\<lambda>fr' V. fr' = fr\<lparr>visitedS := V\<rparr>) (range_slice (currentLayerS fr) mark_h 0 fr)
          (fold insert ?c (visitedS fr))"
  proof (rule range_slice_sim[where R = "\<lambda>fr' V. fr' = fr\<lparr>visitedS := V\<rparr>"])
    fix fr' a assume "fr' = fr\<lparr>visitedS := a\<rparr>"
    with v show "valid_in (mem fr') (currentLayerS fr) \<and>
        elems (mem fr') (currentLayerS fr) = ?c" by simp
  next
    fix x fr' a assume "fr' = fr\<lparr>visitedS := a\<rparr>"
    then show "mark_h x fr' = fr\<lparr>visitedS := insert x a\<rparr>" by (simp add: mark_h_def)
  next
    show "fr = fr\<lparr>visitedS := visitedS fr\<rparr>" by simp
  qed
  moreover have "fold insert ?c (visitedS fr) = visitedS fr \<union> set ?c"
    using mark_visited_eq[of ?c "visitedS fr"] by (simp add: mark_visited_def)
  ultimately show ?thesis by simp
qed

lemma allDepsVisited_h_from:
  assumes v: "valid_in (mem fr) s"
  shows "i \<le> slen s \<Longrightarrow>
     allDepsVisited_h fr s i = list_all (\<lambda>x. x \<in> visitedS fr) (drop i (elems (mem fr) s))"
proof (induction "slen s - i" arbitrary: i)
  case 0
  then have "i = slen s" by simp
  with length_elems[OF v] show ?case by (simp add: allDepsVisited_h.simps)
next
  case (Suc m)
  let ?xs = "elems (mem fr) s"
  from Suc.hyps(2) have i: "i < slen s" by simp
  with length_elems[OF v] have il: "i < length ?xs" by simp
  from slice_get_elems[OF v i] have x: "slice_get (mem fr) s i = ?xs ! i" .
  from Suc.hyps(2) have m: "m = slen s - Suc i" by simp
  from i have le: "Suc i \<le> slen s" by simp
  note IH = Suc.hyps(1)[OF m le]
  have d: "drop i ?xs = ?xs ! i # drop (Suc i) ?xs"
    using il by (simp add: Cons_nth_drop_Suc)
  show ?case
    using i x IH by (subst allDepsVisited_h.simps) (simp add: d)
qed

lemma allDepsVisited_h_eq:
  assumes i0: "inv0 h0 g fr"
  shows "allDepsVisited_h fr (lookup_slice (dependsOnS fr) d) 0 =
           allDepsVisited (tabs fr) (visitedS fr) d"
proof -
  let ?s = "lookup_slice (dependsOnS fr) d"
  have v: "valid_in (mem fr) ?s"
  proof (cases "dependsOnS fr d")
    case None
    then show ?thesis by (simp add: lookup_slice_def)
  next
    case (Some u)
    with i0 have "valid_in h0 u" by (auto simp: inv0_def)
    from graph_slice_kept(1)[OF i0 this] Some show ?thesis by (simp add: lookup_slice_def)
  qed
  have "elems (mem fr) ?s = lookup (dependsOn (tabs fr)) d"
    by (simp add: lookup_slice_elems tabs_def)
  with allDepsVisited_h_from[OF v, of 0] show ?thesis
    by (simp add: allDepsVisited_def)
qed

lemma consider_dependent_h_sim:
  assumes s: "scanning h0 g b fr acc"
  shows "scanning h0 g b (consider_dependent_h rt d fr)
           (consider_dependent (tabs b) (visitedS b) d acc)"
proof -
  obtain n m where acc: "acc = (n, m)" by (cases acc)
  note sd = scanningD[OF s]
  from sd have i0: "inv0 h0 g fr" and tb: "tabs fr = tabs b" and Vb: "visitedS fr = visitedS b"
    and en: "elems (mem fr) (nextLayerS fr) = n" and lm: "layerDepMapS fr = m"
    by (simp_all add: acc)
  note adv = allDepsVisited_h_eq[OF i0, of d, unfolded tb Vb]
  show ?thesis
  proof (cases "d \<in> visitedS b \<or> d \<in> m \<or> \<not> allDepsVisited (tabs b) (visitedS b) d")
    case True
    then have "consider_dependent_h rt d fr = fr"
      using Vb lm adv by (auto simp: consider_dependent_h_def)
    moreover from True have "consider_dependent (tabs b) (visitedS b) d acc = acc"
      by (auto simp: consider_dependent_def acc)
    ultimately show ?thesis using s by simp
  next
    case False
    let ?h = "mem fr" and ?s = "nextLayerS fr"
    obtain s' h' where a: "append_slice rt ?s d ?h = (s', h')"
      by (cases "append_slice rt ?s d ?h")
    let ?fr' = "fr\<lparr>nextLayerS := s', mem := h', layerDepMapS := insert d (layerDepMapS fr)\<rparr>"
    from False have fr': "consider_dependent_h rt d fr = ?fr'"
      using Vb lm adv by (simp add: consider_dependent_h_def a)
    from False have acc': "consider_dependent (tabs b) (visitedS b) d acc = (n @ [d], insert d m)"
      by (simp add: consider_dependent_def acc)
    from i0 have ok: "old_kept h0 ?h" and os: "owned (next_id h0) ?h ?s"
      and oD: "\<forall>k u. dependedOnByS fr k = Some u \<longrightarrow> owned (next_id h0) ?h u"
      and oc: "owned (next_id h0) ?h (currentLayerS fr)"
      and oR: "\<forall>l \<in> set (resultS fr). owned (next_id h0) ?h l"
      and vO: "\<forall>k u. dependsOnS fr k = Some u \<longrightarrow> valid_in h0 u" and rc: "recv fr = g"
      by (simp_all add: inv0_def)
    note apD = sd(10) and apc = sd(11) and apR = sd(12)
    note st = append_step[OF ok os a]
    have D: "owned (next_id h0) h' u \<and> elems h' u = elems ?h u \<and> apart u s'"
      if "dependedOnByS fr k = Some u" for k u
      using st(5)[of u] oD apD that by blast
    have C: "owned (next_id h0) h' (currentLayerS fr) \<and>
             elems h' (currentLayerS fr) = elems ?h (currentLayerS fr) \<and>
             apart (currentLayerS fr) s'"
      using st(5)[OF oc apc] .
    have Rl: "owned (next_id h0) h' l \<and> elems h' l = elems ?h l \<and> apart l s'"
      if "l \<in> set (resultS fr)" for l
      using st(5)[of l] oR apR that by blast
    have i0': "inv0 h0 g ?fr'"
      unfolding inv0_def using rc st(1,2) vO D C Rl by auto
    have t': "tabs ?fr' = tabs fr"
    proof (rule tabs_kept)
      fix k u assume "dependsOnS fr k = Some u"
      with vO have "valid_in h0 u" by blast
      from st(4)[OF this] show "elems (mem ?fr') u = elems ?h u" by simp
    next
      fix k u assume "dependedOnByS fr k = Some u"
      from D[OF this] show "elems (mem ?fr') u = elems ?h u" by simp
    qed simp_all
    have r': "map (elems h') (resultS fr) = map (elems ?h) (resultS fr)"
      using Rl by (intro map_cong) auto
    show ?thesis
      unfolding fr' acc' scanning_def
      using sd(2-9) i0' t' r' C D Rl st(3) en lm
      by auto
  qed
qed

lemma scan_value_h_sim:
  assumes s: "scanning h0 g b fr acc"
  shows "scanning h0 g b (scan_value_h rt v fr)
           (fold (consider_dependent (tabs b) (visitedS b)) (lookup (dependedOnBy (tabs b)) v) acc)"
proof -
  let ?s = "lookup_slice (dependedOnByS b) v"
  note D = scanningD(3)[OF s]
  have "scanning h0 g b (range_slice ?s (consider_dependent_h rt) 0 fr)
          (fold (consider_dependent (tabs b) (visitedS b)) (lookup (dependedOnBy (tabs b)) v) acc)"
  proof (rule range_slice_sim[where R = "scanning h0 g b"])
    fix fr' a assume s': "scanning h0 g b fr' a"
    note i0 = scanningD(1)[OF s'] and D' = scanningD(3)[OF s'] and t' = scanningD(7)[OF s']
    from i0 have "\<forall>k u. dependedOnByS fr' k = Some u \<longrightarrow> owned (next_id h0) (mem fr') u"
      by (simp add: inv0_def)
    then have "owned (next_id h0) (mem fr') (lookup_slice (dependedOnByS fr') v)"
      by (rule lookup_slice_owned)
    then have "valid_in (mem fr') ?s" by (simp add: owned_def D')
    moreover have "elems (mem fr') ?s = lookup (dependedOnBy (tabs b)) v"
      unfolding t'[symmetric] D'[symmetric] by (simp add: lookup_slice_elems tabs_def)
    ultimately show "valid_in (mem fr') ?s \<and> elems (mem fr') ?s = lookup (dependedOnBy (tabs b)) v"
      by simp
  next
    fix x fr' a assume "scanning h0 g b fr' a"
    then show "scanning h0 g b (consider_dependent_h rt x fr')
        (consider_dependent (tabs b) (visitedS b) x a)"
      by (rule consider_dependent_h_sim)
  next
    show "scanning h0 g b fr acc" by (rule s)
  qed
  then show ?thesis by (simp add: scan_value_h_def D)
qed

lemma round_h_sim:
  assumes ah: "at_head h0 g t fr r V c"
  shows "at_head h0 g t (round_h rt fr) (r @ [c]) (V \<union> set c) (next_layer t (V \<union> set c) c)"
proof -
  from ah have i0: "inv0 h0 g fr" and t: "tabs fr = t"
    and r: "map (elems (mem fr)) (resultS fr) = r" and V: "visitedS fr = V"
    and c: "elems (mem fr) (currentLayerS fr) = c"
    by (simp_all add: at_head_def)
  let ?fr1 = "fr\<lparr>resultS := resultS fr @ [currentLayerS fr]\<rparr>"
  have i1: "inv0 h0 g ?fr1" using i0 by (auto simp: inv0_def)
  let ?fr2 = "?fr1\<lparr>visitedS := V \<union> set c\<rparr>"
  have m: "range_slice (currentLayerS ?fr1) mark_h 0 ?fr1 = ?fr2"
    using mark_loop[OF i1] V c by simp
  let ?b = "?fr2\<lparr>nextLayerS := nil_slice, layerDepMapS := {}\<rparr>"
  have ib: "inv0 h0 g ?b" using i1 by (auto simp: inv0_def)
  have tb: "tabs ?b = t" using t by (simp add: tabs_def)
  have sb: "scanning h0 g ?b ?b ([], {})"
    using ib by (simp add: scanning_def)
  let ?fr4 = "range_slice (currentLayerS ?b) (scan_value_h rt) 0 ?b"
  have s4: "scanning h0 g ?b ?fr4
      (fold (\<lambda>value. fold (consider_dependent (tabs ?b) (visitedS ?b))
                         (lookup (dependedOnBy (tabs ?b)) value)) c ([], {}))"
  proof (rule range_slice_sim[where R = "scanning h0 g ?b"])
    fix fr' a assume s': "scanning h0 g ?b fr' a"
    note d' = scanningD[OF s']
    from d'(1) have "valid_in (mem fr') (currentLayerS fr')" by (simp add: inv0_def owned_def)
    with d'(4) have "valid_in (mem fr') (currentLayerS ?b)" by simp
    moreover from d'(9) d'(4) c have "elems (mem fr') (currentLayerS ?b) = c" by simp
    ultimately show "valid_in (mem fr') (currentLayerS ?b) \<and>
        elems (mem fr') (currentLayerS ?b) = c" by simp
  next
    fix x fr' a assume "scanning h0 g ?b fr' a"
    then show "scanning h0 g ?b (scan_value_h rt x fr')
        (fold (consider_dependent (tabs ?b) (visitedS ?b)) (lookup (dependedOnBy (tabs ?b)) x) a)"
      by (rule scan_value_h_sim)
  next
    show "scanning h0 g ?b ?b ([], {})" by (rule sb)
  qed
  have n: "fst (fold (\<lambda>value. fold (consider_dependent (tabs ?b) (visitedS ?b))
                         (lookup (dependedOnBy (tabs ?b)) value)) c ([], {})) =
           next_layer t (V \<union> set c) c"
    unfolding tb by (simp add: next_layer_def scan_layer_def)
  have rd: "round_h rt fr = ?fr4\<lparr>currentLayerS := nextLayerS ?fr4\<rparr>"
    unfolding round_h_def Let_def m by simp
  note d4 = scanningD[OF s4]
  from d4(1) have i4: "inv0 h0 g ?fr4" .
  from d4(7) tb have t4: "tabs ?fr4 = t" by simp
  from d4(8) r c have r4: "map (elems (mem ?fr4)) (resultS ?fr4) = r @ [c]" by simp
  from d4(6) have V4: "visitedS ?fr4 = V \<union> set c" by simp
  from d4(13) n have n4: "elems (mem ?fr4) (nextLayerS ?fr4) = next_layer t (V \<union> set c) c"
    by simp
  have i5: "inv0 h0 g (?fr4\<lparr>currentLayerS := nextLayerS ?fr4\<rparr>)"
    using i4 by (auto simp: inv0_def)
  have t5: "tabs (?fr4\<lparr>currentLayerS := nextLayerS ?fr4\<rparr>) = t"
    using t4 by (simp add: tabs_def)
  show ?thesis
    unfolding rd at_head_def using i5 t5 r4 V4 n4 by simp
qed

subsubsection \<open>The loop returns, and the call as a whole\<close>

lemma layers_loop_h_sim:
  "at_head h0 g (build ga) fr r V c \<Longrightarrow>
     \<exists>fr'. layers_loop_h rt fr = Some fr' \<and>
       at_head h0 g (build ga) fr' (fst (layers_loop ga r V c)) (snd (layers_loop ga r V c)) []"
proof (induction ga r V c arbitrary: fr rule: layers_loop.induct)
  case (1 ga result visited currentLayer)
  from "1.prems" have i0: "inv0 h0 g fr"
    and c: "elems (mem fr) (currentLayerS fr) = currentLayer"
    by (simp_all add: at_head_def)
  from i0 have "valid_in (mem fr) (currentLayerS fr)" by (simp add: inv0_def owned_def)
  from length_elems[OF this] c have l: "slen (currentLayerS fr) = length currentLayer" by simp
  show ?case
  proof (cases "currentLayer = []")
    case True
    with l have "layers_loop_h rt fr = Some fr"
      by (subst layers_loop_h.simps) simp
    moreover from True have "layers_loop ga result visited currentLayer = (result, visited)"
      by (simp add: layers_loop.simps)
    ultimately show ?thesis using "1.prems" True by simp
  next
    case False
    let ?V = "visited \<union> set currentLayer"
    let ?n = "next_layer (build ga) ?V currentLayer"
    from False l have u: "layers_loop_h rt fr = layers_loop_h rt (round_h rt fr)"
      by (subst layers_loop_h.simps) simp
    have ua: "layers_loop ga result visited currentLayer =
              layers_loop ga (result @ [currentLayer]) ?V ?n"
      using False by (subst layers_loop.simps) (simp add: mark_visited_eq Let_def)
    have ah: "at_head h0 g (build ga) (round_h rt fr) (result @ [currentLayer]) ?V ?n"
      using "1.prems" by (rule round_h_sim)
    from False have pos: "0 < length currentLayer" by simp
    have mv: "mark_visited currentLayer visited = ?V" by (rule mark_visited_eq)
    from "1.IH"[OF pos refl refl refl, unfolded mv, OF ah]
    show ?thesis unfolding u ua .
  qed
qed

lemma has_unresolved_h_eq:
  assumes i0: "inv0 h0 g fr"
  shows "has_unresolved_h fr ks = has_unresolved (tabs fr) (visitedS fr) ks"
proof (induction ks)
  case Nil
  show ?case by simp
next
  case (Cons v ks)
  have "(case dependsOnS fr v of None \<Rightarrow> False | Some ds \<Rightarrow> 0 < slen ds) =
        (case dependsOn (tabs fr) v of None \<Rightarrow> False | Some ds \<Rightarrow> 0 < length ds)"
  proof (cases "dependsOnS fr v")
    case None
    then show ?thesis by (simp add: tabs_def)
  next
    case (Some ds)
    with i0 have "valid_in h0 ds" by (auto simp: inv0_def)
    from graph_slice_kept(1)[OF i0 this] have "length (elems (mem fr) ds) = slen ds"
      by (rule length_elems)
    with Some show ?thesis by (simp add: tabs_def)
  qed
  with Cons show ?case by simp
qed

lemma abs_graph_kept:
  assumes "wf_graph h g" and "old_kept h h'"
  shows "abs_graph h' g = abs_graph h g"
proof -
  have "abs_node h' n = abs_node h n" if "n \<in> set (hnodes g)" for n
  proof -
    from assms(1) that have "valid_in h (hdeps n)" by (simp add: wf_graph_def)
    from old_kept_valid(2)[OF assms(2) this] show ?thesis by (simp add: abs_node_def)
  qed
  then show ?thesis by (simp add: abs_graph_def)
qed

lemma AddNode_h_abs:
  "abs_graph h (AddNode_h g v s) = AddNode (abs_graph h g) v (elems h s)"
  by (simp add: abs_graph_def AddNode_h_def AddNode_def abs_node_def)

subsubsection \<open>Two graphs in a store\<close>

text \<open>
  The diamond and the three-cycle of the examples, with dependency lists cut out of two
  caller arrays: in array 0, the list of node 3 is \<^verbatim>\<open>a[1:2]\<close> with capacity 3, so that
  the list of node 4, \<^verbatim>\<open>a[2:4]\<close>, lies in its spare room.
\<close>

definition rt0 :: "int runtime" where
  "rt0 = \<lparr>grow_cap = (\<lambda>n. 2 * n), zero_value = 0\<rparr>"

definition heap0 :: "int heap" where
  "heap0 = \<lparr>arrays = (\<lambda>a. if a = 0 then [1, 1, 2, 3] else if a = 1 then [3, 1, 2] else []),
            next_id = 2\<rparr>"

definition hdiamond :: "int hgraph" where
  "hdiamond = \<lparr>hnodes =
     [\<lparr>hvalue = 1, hdeps = nil_slice\<rparr>,
      \<lparr>hvalue = 2, hdeps = \<lparr>sptr = 0, soff = 0, slen = 1, scap = 1\<rparr>\<rparr>,
      \<lparr>hvalue = 3, hdeps = \<lparr>sptr = 0, soff = 1, slen = 1, scap = 3\<rparr>\<rparr>,
      \<lparr>hvalue = 4, hdeps = \<lparr>sptr = 0, soff = 2, slen = 2, scap = 2\<rparr>\<rparr>]\<rparr>"

definition hthree_cycle :: "int hgraph" where
  "hthree_cycle = \<lparr>hnodes =
     [\<lparr>hvalue = 1, hdeps = \<lparr>sptr = 1, soff = 0, slen = 1, scap = 1\<rparr>\<rparr>,
      \<lparr>hvalue = 2, hdeps = \<lparr>sptr = 1, soff = 1, slen = 1, scap = 1\<rparr>\<rparr>,
      \<lparr>hvalue = 3, hdeps = \<lparr>sptr = 1, soff = 2, slen = 1, scap = 1\<rparr>\<rparr>]\<rparr>"

lemma hdiamond_abs: "wf_graph heap0 hdiamond" "abs_graph heap0 hdiamond = diamond"
  by (simp_all add: wf_graph_def valid_in_def hdiamond_def heap0_def nil_slice_def
      abs_graph_def abs_node_def elems_def diamond_def graph_eval)

lemma hthree_cycle_abs: "wf_graph heap0 hthree_cycle" "abs_graph heap0 hthree_cycle = three_cycle"
  by (simp_all add: wf_graph_def valid_in_def hthree_cycle_def heap0_def
      abs_graph_def abs_node_def elems_def three_cycle_def graph_eval)

text \<open>
  The frame property is not one that every program over this store has: one
  \<^verbatim>\<open>append\<close> to the dependency slice of node 3 rewrites the dependency list of node 4.
\<close>

lemma append_through_deps_overwrites:
  "elems heap0 (hdeps (hnodes hdiamond ! 3)) = [2, 3] \<and>
   elems (snd (append_slice rt0 (hdeps (hnodes hdiamond ! 2)) 9 heap0))
     (hdeps (hnodes hdiamond ! 3)) = [9, 3] \<and>
   abs_graph (snd (append_slice rt0 (hdeps (hnodes hdiamond ! 2)) 9 heap0)) hdiamond \<noteq>
     abs_graph heap0 hdiamond"
  by (simp add: append_slice_def hdiamond_def heap0_def rt0_def elems_def abs_graph_def
      abs_node_def nil_slice_def)

subsubsection \<open>The frame theorem\<close>

text \<open>
  Claim C9. SortByLayers does not mutate the graph. For every store and every graph whose
  dependency slices are valid in it, for every growth policy of \<^verbatim>\<open>append\<close> and every
  order of the two iterations over \<^verbatim>\<open>allValues\<close>, the call returns, and when it does
  the receiver is the one passed in, every array that was allocated at entry holds what it
  held (so no write went through \<^verbatim>\<open>g.nodes\<close> or through a \<^verbatim>\<open>node.deps\<close>), and the
  recorded list of (identity, dependency list) entries read out of the store after the
  call is the list read out before it. This holds on the error return as on the successful
  one: the layers and the error of the call are those of the functional model
  \<^verbatim>\<open>SortByLayers\<close> on the graph the store denotes.
\<close>

theorem SortByLayers_frame:
  assumes wf: "wf_graph h g"
  shows "\<exists>out. SortByLayers_h rt ks1 ks2 h g = Some out \<and>
           recv_after out = g \<and>
           old_kept h (mem_after out) \<and>
           abs_graph (mem_after out) (recv_after out) = abs_graph h g \<and>
           map (elems (mem_after out)) (layers_h out) =
             ret_layers (SortByLayers ks1 ks2 (abs_graph h g)) \<and>
           err_h out = ret_err (SortByLayers ks1 ks2 (abs_graph h g))"
proof -
  let ?ga = "abs_graph h g"
  let ?fr1 = "first_layer_h rt ks1 (build_h rt (entry_frame h g))"
  have b: "built h g (build_h rt (entry_frame h g)) (build ?ga)"
    using wf by (rule build_h_sim)
  then have "seeded h g (build ?ga) ?fr1 (first_layer (build ?ga) ks1)"
    by (rule first_layer_h_sim)
  then have ah: "at_head h g (build ?ga) ?fr1 [] {} (first_layer (build ?ga) ks1)"
    by (simp add: seeded_def at_head_def)
  from layers_loop_h_sim[OF ah, of rt] obtain fr where
    lp: "layers_loop_h rt ?fr1 = Some fr"
    and fin: "at_head h g (build ?ga) fr (final_layers ?ga ks1) (final_visited ?ga ks1) []"
    by (auto simp: final_layers_def final_visited_def)
  from fin have i0: "inv0 h g fr" and t: "tabs fr = build ?ga"
    and r: "map (elems (mem fr)) (resultS fr) = final_layers ?ga ks1"
    and V: "visitedS fr = final_visited ?ga ks1"
    by (simp_all add: at_head_def)
  from i0 have rc: "recv fr = g" and ok: "old_kept h (mem fr)" by (simp_all add: inv0_def)
  have hu: "has_unresolved_h fr ks2 = has_unresolved (build ?ga) (final_visited ?ga ks1) ks2"
    using has_unresolved_h_eq[OF i0, of ks2] t V by simp
  have ag: "abs_graph (mem fr) g = ?ga" using wf ok by (rule abs_graph_kept)
  show ?thesis
  proof (cases "has_unresolved_h fr ks2")
    case True
    with lp have "SortByLayers_h rt ks1 ks2 h g =
        Some \<lparr>layers_h = [], err_h = Some ErrCyclicDependency, mem_after = mem fr,
              recv_after = recv fr\<rparr>"
      by (simp add: SortByLayers_h_def)
    with True hu rc ok ag show ?thesis by (simp add: SortByLayers_unfold)
  next
    case False
    with lp have "SortByLayers_h rt ks1 ks2 h g =
        Some \<lparr>layers_h = resultS fr, err_h = None, mem_after = mem fr, recv_after = recv fr\<rparr>"
      by (simp add: SortByLayers_h_def)
    with False hu rc ok ag r show ?thesis by (simp add: SortByLayers_unfold)
  qed
qed

text \<open>
  The theorem at a successful call and at a failing one, both on graphs that share arrays
  with spare capacity.
\<close>

theorem SortByLayers_frame_witness:
  "wf_graph heap0 hdiamond \<and> wf_graph heap0 hthree_cycle \<and>
   (\<exists>out. SortByLayers_h rt0 [1, 2, 3, 4] [4, 3, 2, 1] heap0 hdiamond = Some out \<and>
      err_h out = None \<and>
      map (elems (mem_after out)) (layers_h out) = [[1], [2, 3], [4]] \<and>
      recv_after out = hdiamond \<and>
      abs_graph (mem_after out) (recv_after out) = diamond) \<and>
   (\<exists>out. SortByLayers_h rt0 [1, 2, 3] [3, 1, 2] heap0 hthree_cycle = Some out \<and>
      err_h out = Some ErrCyclicDependency \<and>
      recv_after out = hthree_cycle \<and>
      abs_graph (mem_after out) (recv_after out) = three_cycle)"
proof -
  from SortByLayers_frame[OF hdiamond_abs(1), of rt0 "[1, 2, 3, 4]" "[4, 3, 2, 1]"]
  have 1: "\<exists>out. SortByLayers_h rt0 [1, 2, 3, 4] [4, 3, 2, 1] heap0 hdiamond = Some out \<and>
      err_h out = None \<and>
      map (elems (mem_after out)) (layers_h out) = [[1], [2, 3], [4]] \<and>
      recv_after out = hdiamond \<and>
      abs_graph (mem_after out) (recv_after out) = diamond"
    by (auto simp: hdiamond_abs(2) diamond_sort)
  from SortByLayers_frame[OF hthree_cycle_abs(1), of rt0 "[1, 2, 3]" "[3, 1, 2]"]
  have 2: "\<exists>out. SortByLayers_h rt0 [1, 2, 3] [3, 1, 2] heap0 hthree_cycle = Some out \<and>
      err_h out = Some ErrCyclicDependency \<and>
      recv_after out = hthree_cycle \<and>
      abs_graph (mem_after out) (recv_after out) = three_cycle"
    by (auto simp: hthree_cycle_abs(2) three_cycle_sort)
  from hdiamond_abs(1) hthree_cycle_abs(1) 1 2 show ?thesis by blast
qed

end
